theory Spec2Isabelle
  imports Main "HOL-Library.Word"
begin

unbundle bit_operations_syntax

section \<open>Unicode transcoding primitives (utf.c)\<close>

text \<open>
  The C types are modelled at their LP64 widths: \<open>uint8_t\<close>, \<open>uint16_t\<close>,
  \<open>uint32_t\<close> and \<open>uint64_t\<close> are words of that width and \<open>size_t\<close> is a 64-bit
  word, so \<open>SIZE_MAX\<close> is \<open>2 ^ 64 - 1\<close>.
\<close>

type_synonym uint8_t = "8 word"
type_synonym uint16_t = "16 word"
type_synonym uint32_t = "32 word"
type_synonym uint64_t = "64 word"
type_synonym size_t = "64 word"

definition SIZE_MAX :: size_t where
  "SIZE_MAX = 0xFFFFFFFFFFFFFFFF"

definition UTF_REPLACEMENT_CHAR :: uint32_t where
  "UTF_REPLACEMENT_CHAR = 0xfffd"

text \<open>
  \<open>utf8_encode buf cp\<close> returns the bytes it stores at \<open>buf\<close> (the empty list when
  \<open>buf\<close> is \<open>NULL\<close>, which the flag \<open>False\<close> stands for) and its return value.
\<close>

definition utf8_encode :: "bool \<Rightarrow> uint32_t \<Rightarrow> uint8_t list \<times> size_t" where
  "utf8_encode buf cp =
     (if cp \<le> 0x7f then
        ((if buf then [ucast cp] else []), 1)
      else if cp \<le> 0x7ff then
        ((if buf then
            [ucast (0xc0 OR (drop_bit 6 cp AND 0x1f)),
             ucast (0x80 OR (cp AND 0x3f))]
          else []), 2)
      else if cp \<le> 0xffff then
        ((if buf then
            [ucast (0xe0 OR (drop_bit 12 cp AND 0x0f)),
             ucast (0x80 OR (drop_bit 6 cp AND 0x3f)),
             ucast (0x80 OR (cp AND 0x3f))]
          else []), 3)
      else if cp \<le> 0x10ffff then
        ((if buf then
            [ucast (0xf0 OR (drop_bit 18 cp AND 0x07)),
             ucast (0x80 OR (drop_bit 12 cp AND 0x3f)),
             ucast (0x80 OR (drop_bit 6 cp AND 0x3f)),
             ucast (0x80 OR (cp AND 0x3f))]
          else []), 4)
      else ([], 0))"

definition utf16_is_surrogate :: "uint16_t \<Rightarrow> bool" where
  "utf16_is_surrogate u \<longleftrightarrow> u AND 0xf800 = 0xd800"

definition utf16_is_high_surrogate :: "uint16_t \<Rightarrow> bool" where
  "utf16_is_high_surrogate u \<longleftrightarrow> u AND 0xfc00 = 0xd800"

definition utf16_is_low_surrogate :: "uint16_t \<Rightarrow> bool" where
  "utf16_is_low_surrogate u \<longleftrightarrow> u AND 0xfc00 = 0xdc00"

definition utf16_decode_surrogate_pair :: "uint16_t \<Rightarrow> uint16_t \<Rightarrow> uint32_t" where
  "utf16_decode_surrogate_pair hi lo =
     (push_bit 10 (ucast (hi AND 0x3ff)) OR ucast (lo AND 0x3ff)) + 0x10000"

text \<open>\<open>utf16_decode u1 u2\<close> returns the code point stored through \<open>cp\<close> and the return value.\<close>

definition utf16_decode :: "uint16_t \<Rightarrow> uint16_t \<Rightarrow> uint32_t \<times> size_t" where
  "utf16_decode u1 u2 =
     (if \<not> utf16_is_surrogate u1 then (ucast u1, 1)
      else if utf16_is_high_surrogate u1 \<and> utf16_is_low_surrogate u2 then
        (utf16_decode_surrogate_pair u1 u2, 2)
      else (UTF_REPLACEMENT_CHAR, 0))"

text \<open>
  The argument \<open>utf16\<close> of the converter is a NUL-terminated array. It is modelled
  by the list of its code units; reading at the index just past the list gives the
  terminating NUL. The loop never reads further: it stops at the first NUL.
\<close>

definition unit_at :: "uint16_t list \<Rightarrow> nat \<Rightarrow> uint16_t" where
  "unit_at utf16 i = (if i < length utf16 then utf16 ! i else 0)"

text \<open>
  The \<open>for\<close> loop of \<open>utf16_convert_string_to_utf8\<close>. \<open>buf\<close> tells whether the
  destination is non-\<open>NULL\<close>; \<open>out\<close> collects the bytes stored at
  \<open>buf[0 .. buflen - 1]\<close>. The result is the final \<open>buflen\<close> and those bytes.
\<close>

function utf16_convert_loop ::
  "bool \<Rightarrow> size_t \<Rightarrow> uint16_t list \<Rightarrow> nat \<Rightarrow> size_t \<Rightarrow> uint8_t list \<Rightarrow> size_t \<times> uint8_t list"
where
  "utf16_convert_loop buf bufsize utf16 i buflen out =
     (if unit_at utf16 i = 0 then (buflen, out)
      else
        let cp = fst (utf16_decode (unit_at utf16 i) (unit_at utf16 (i + 1)));
            n0 = snd (utf16_decode (unit_at utf16 i) (unit_at utf16 (i + 1)));
            n = (if n0 = 0 then 1 else n0)
        in
          if \<not> buf then
            (let seqlen = snd (utf8_encode False cp) in
             if seqlen > SIZE_MAX - buflen then (SIZE_MAX, out)
             else utf16_convert_loop buf bufsize utf16 (i + unat n) (buflen + seqlen) out)
          else if bufsize - buflen - 1 < 4 \<and> snd (utf8_encode False cp) > bufsize - buflen - 1
            then (buflen, out)
          else utf16_convert_loop buf bufsize utf16 (i + unat n)
                 (buflen + snd (utf8_encode True cp)) (out @ fst (utf8_encode True cp)))"
  by pat_completeness auto
termination
  apply (relation "measure (\<lambda>(buf, bufsize, utf16, i, buflen, out). length utf16 - i)")
    apply (auto simp: unit_at_def utf16_decode_def Let_def split: if_splits)
  done

declare utf16_convert_loop.simps [simp del]

text \<open>
  The result is the return value and the contents of \<open>buf[0 .. buflen]\<close>
  (terminator included) when \<open>buf\<close> is not \<open>NULL\<close>.
\<close>

definition utf16_convert_string_to_utf8 ::
  "bool \<Rightarrow> size_t \<Rightarrow> uint16_t list \<Rightarrow> size_t \<times> uint8_t list" where
  "utf16_convert_string_to_utf8 buf bufsize utf16 =
     (if buf \<and> bufsize = 0 then (0, [])
      else
        let r = utf16_convert_loop buf bufsize utf16 0 0 []
        in (fst r, if buf then snd r @ [0] else []))"

text \<open>
  Reference transcoding, following the specification's words rather than the loop: each
  code point of the sequence up to its first NUL, decoded by the surrogate-pair rules and
  encoded in UTF-8, concatenated.
\<close>

fun utf8_of_utf16 :: "uint16_t list \<Rightarrow> uint8_t list" where
  "utf8_of_utf16 [] = []"
| "utf8_of_utf16 [u] =
     (if u = 0 then [] else fst (utf8_encode True (fst (utf16_decode u 0))))"
| "utf8_of_utf16 (u # v # us) =
     (if u = 0 then []
      else if snd (utf16_decode u v) = 2
        then fst (utf8_encode True (fst (utf16_decode u v))) @ utf8_of_utf16 us
      else fst (utf8_encode True (fst (utf16_decode u v))) @ utf8_of_utf16 (v # us))"

section \<open>The backup container (nbu.c): data model\<close>

text \<open>
  Every diagnostic that \<open>nbu.c\<close> prints with \<open>warn\<close> or \<open>warnx\<close> before it
  returns \<open>-1\<close> or \<open>NULL\<close> is a value of the following type; a function that can fail
  returns \<open>Inl\<close> of it.
\<close>

datatype error =
    Unexpected_end_of_file
  | Fseek_failed
  | Ftell_failed
  | UTF16_string_too_long
  | Out_of_memory
  | Section_unexpectedly_contains_folders
  | Memo_too_large
  | Unsupported_backup_section
  | Invalid_item_size
  | Invalid_folder_name
  | Mkdir_failed
  | Open_failed
  | Openat_failed

text \<open>\<open>struct nbu_item\<close>: \<open>pos\<close> is a \<open>long\<close>, \<open>len\<close> a \<open>uint32_t\<close>.\<close>

record nbu_item =
  item_pos :: int
  item_len :: uint32_t

text \<open>
  \<open>struct nbu_folder\<close>. The name is the array that \<open>nbu_read_utf16\<close> returns,
  terminator included.
\<close>

record nbu_folder =
  folder_name :: "uint16_t list"
  folder_items :: "nbu_item list"

text \<open>
  \<open>struct nbu_ctx\<close>. The stream \<open>fp\<close> is the content of the backup file and the file
  position indicator. A pointer field is \<open>None\<close> while it is \<open>NULL\<close>; the tail queues
  are lists in insertion order.
\<close>

record nbu_ctx =
  fp_data :: "uint8_t list"
  fp_pos :: nat
  backup_time :: uint64_t
  phone_imei :: "uint16_t list option"
  phone_model :: "uint16_t list option"
  phone_name :: "uint16_t list option"
  phone_firmware :: "uint16_t list option"
  phone_language :: "uint16_t list option"
  bookmarks :: "nbu_folder list option"
  messages :: "nbu_folder list option"
  mmses :: "nbu_folder list option"
  calendar :: "nbu_item list option"
  contacts :: "nbu_item list option"
  memos :: "nbu_item list option"

definition LONG_MAX :: int where
  "LONG_MAX = 0x7FFFFFFFFFFFFFFF"

datatype whence = SEEK_SET | SEEK_CUR

text \<open>Sequencing of fallible steps: the first failure is the result.\<close>

definition ebind :: "error + 'a \<Rightarrow> ('a \<Rightarrow> error + 'b) \<Rightarrow> error + 'b" where
  "ebind m f = (case m of Inl e \<Rightarrow> Inl e | Inr x \<Rightarrow> f x)"

section \<open>Primitive reader\<close>

text \<open>
  \<open>fread(ptr, sz, 1, fp)\<close> returns 1 only if \<open>sz\<close> bytes are left at the
  position; it returns 0 when \<open>sz\<close> is 0. The result is the bytes read and the
  context with the position advanced.
\<close>

definition nbu_read :: "nbu_ctx \<Rightarrow> nat \<Rightarrow> error + (uint8_t list \<times> nbu_ctx)" where
  "nbu_read ctx sz =
     (if sz \<noteq> 0 \<and> fp_pos ctx + sz \<le> length (fp_data ctx)
      then Inr (take sz (drop (fp_pos ctx) (fp_data ctx)),
                ctx\<lparr>fp_pos := fp_pos ctx + sz\<rparr>)
      else Inl Unexpected_end_of_file)"

text \<open>The value of a little-endian byte sequence (\<open>le16toh\<close>, \<open>le32toh\<close>, \<open>le64toh\<close>).\<close>

fun le_to_host :: "uint8_t list \<Rightarrow> 'a::len word" where
  "le_to_host [] = 0"
| "le_to_host (b # bs) = ucast b OR push_bit 8 (le_to_host bs)"

definition nbu_read_uint8 :: "nbu_ctx \<Rightarrow> error + (uint8_t \<times> nbu_ctx)" where
  "nbu_read_uint8 ctx = ebind (nbu_read ctx 1) (\<lambda>(bs, ctx'). Inr (le_to_host bs, ctx'))"

definition nbu_read_uint16 :: "nbu_ctx \<Rightarrow> error + (uint16_t \<times> nbu_ctx)" where
  "nbu_read_uint16 ctx = ebind (nbu_read ctx 2) (\<lambda>(bs, ctx'). Inr (le_to_host bs, ctx'))"

definition nbu_read_uint32 :: "nbu_ctx \<Rightarrow> error + (uint32_t \<times> nbu_ctx)" where
  "nbu_read_uint32 ctx = ebind (nbu_read ctx 4) (\<lambda>(bs, ctx'). Inr (le_to_host bs, ctx'))"

definition nbu_read_uint64 :: "nbu_ctx \<Rightarrow> error + (uint64_t \<times> nbu_ctx)" where
  "nbu_read_uint64 ctx = ebind (nbu_read ctx 8) (\<lambda>(bs, ctx'). Inr (le_to_host bs, ctx'))"

text \<open>The \<open>for\<close> loop of \<open>nbu_read_utf16_n\<close>: \<open>n\<close> code units are still to be read.\<close>

fun nbu_read_utf16_loop ::
  "nat \<Rightarrow> nbu_ctx \<Rightarrow> uint16_t list \<Rightarrow> error + (uint16_t list \<times> nbu_ctx)" where
  "nbu_read_utf16_loop 0 ctx utf16 = Inr (utf16, ctx)"
| "nbu_read_utf16_loop (Suc n) ctx utf16 =
     ebind (nbu_read_uint16 ctx) (\<lambda>(u, ctx'). nbu_read_utf16_loop n ctx' (utf16 @ [u]))"

text \<open>
  \<open>reallocarray(NULL, len + 1, 2)\<close> fails when the product overflows \<open>size_t\<close>,
  that is when \<open>len + 1\<close> exceeds \<open>SIZE_MAX / 2\<close>; otherwise the allocation is taken to succeed (as every \<open>malloc\<close> of the model).
\<close>

definition nbu_read_utf16_n :: "nbu_ctx \<Rightarrow> size_t \<Rightarrow> error + (uint16_t list \<times> nbu_ctx)" where
  "nbu_read_utf16_n ctx len =
     (if len = SIZE_MAX then Inl UTF16_string_too_long
      else if len + 1 > 0x7FFFFFFFFFFFFFFF then Inl Out_of_memory
      else ebind (nbu_read_utf16_loop (unat len) ctx [])
             (\<lambda>(utf16, ctx'). Inr (utf16 @ [0], ctx')))"

definition nbu_read_utf16 :: "nbu_ctx \<Rightarrow> error + (uint16_t list \<times> nbu_ctx)" where
  "nbu_read_utf16 ctx =
     ebind (nbu_read_uint16 ctx) (\<lambda>(len, ctx'). nbu_read_utf16_n ctx' (ucast len))"

definition nbu_read_file_time :: "nbu_ctx \<Rightarrow> error + (uint64_t \<times> nbu_ctx)" where
  "nbu_read_file_time ctx =
     ebind (nbu_read_uint32 ctx) (\<lambda>(hi, ctx1).
     ebind (nbu_read_uint32 ctx1) (\<lambda>(lo, ctx2).
       Inr (push_bit 32 (ucast hi) OR ucast lo, ctx2)))"

text \<open>
  \<open>fseek\<close> on a regular file: the new position may lie past the end of the file, but
  not before its start nor beyond \<open>LONG_MAX\<close>. \<open>offset\<close> is the \<open>long\<close> argument.
\<close>

definition nbu_seek :: "nbu_ctx \<Rightarrow> int \<Rightarrow> whence \<Rightarrow> error + nbu_ctx" where
  "nbu_seek ctx offset wh =
     (let target = (case wh of SEEK_SET \<Rightarrow> offset | SEEK_CUR \<Rightarrow> int (fp_pos ctx) + offset)
      in if 0 \<le> target \<and> target \<le> LONG_MAX
         then Inr (ctx\<lparr>fp_pos := nat target\<rparr>)
         else Inl Fseek_failed)"

definition nbu_tell :: "nbu_ctx \<Rightarrow> error + int" where
  "nbu_tell ctx =
     (if int (fp_pos ctx) \<le> LONG_MAX then Inr (int (fp_pos ctx)) else Inl Ftell_failed)"

definition nbu_convert_utf16_to_utf8 :: "uint16_t list \<Rightarrow> error + uint8_t list" where
  "nbu_convert_utf16_to_utf8 utf16 =
     (let size = fst (utf16_convert_string_to_utf8 False 0 utf16)
      in if size = SIZE_MAX then Inl UTF16_string_too_long
         else Inr (snd (utf16_convert_string_to_utf8 True (size + 1) utf16)))"

section \<open>Item and folder model\<close>

definition nbu_add_item :: "nbu_item list \<Rightarrow> int \<Rightarrow> uint32_t \<Rightarrow> nbu_item list" where
  "nbu_add_item list pos len = list @ [\<lparr>item_pos = pos, item_len = len\<rparr>]"


section \<open>Section handlers\<close>

text \<open>
  In the handlers a \<open>uint64_t\<close> position passed to \<open>nbu_seek\<close> is converted to
  \<open>long\<close> (\<open>sint\<close>), after the unsigned addition has wrapped; a \<open>uint32_t\<close> or
  \<open>uint16_t\<close> length is converted without change of value (\<open>uint\<close>). Each
  \<open>for (i = 0; i < n; i++)\<close> loop is a recursion on the number of iterations left,
  and its body is a function of its own.
\<close>

text \<open>The body of the loop of \<open>nbu_read_vcards\<close> (one item record).\<close>

definition nbu_read_vcard :: "nbu_ctx \<Rightarrow> nbu_item list \<Rightarrow> error + (nbu_item list \<times> nbu_ctx)" where
  "nbu_read_vcard ctx list =
     ebind (nbu_read_uint32 ctx) (\<lambda>(test, ctx1).
     ebind (if test \<noteq> 0x10 then Inr ctx1
            else ebind (nbu_read_uint32 ctx1) (\<lambda>(test2, ctx2). Inr ctx2)) (\<lambda>ctx2.
     ebind (nbu_read_uint32 ctx2) (\<lambda>(len, ctx3).
     ebind (nbu_tell ctx3) (\<lambda>pos.
       let list' = nbu_add_item list pos len in
       ebind (nbu_seek ctx3 (uint len) SEEK_CUR) (\<lambda>ctx4.
         Inr (list', ctx4))))))"

fun nbu_read_vcards_loop ::
  "nat \<Rightarrow> nbu_ctx \<Rightarrow> nbu_item list \<Rightarrow> error + (nbu_item list \<times> nbu_ctx)" where
  "nbu_read_vcards_loop 0 ctx list = Inr (list, ctx)"
| "nbu_read_vcards_loop (Suc n) ctx list =
     ebind (nbu_read_vcard ctx list) (\<lambda>(list', ctx'). nbu_read_vcards_loop n ctx' list')"

definition nbu_read_vcards :: "nbu_ctx \<Rightarrow> nbu_item list \<Rightarrow> error + (nbu_item list \<times> nbu_ctx)" where
  "nbu_read_vcards ctx list =
     ebind (nbu_read_uint32 ctx) (\<lambda>(nitems, ctx1).
       nbu_read_vcards_loop (unat nitems) ctx1 list)"

definition nbu_read_vcard_folder :: "nbu_ctx \<Rightarrow> uint64_t \<Rightarrow> error + (nbu_folder \<times> nbu_ctx)" where
  "nbu_read_vcard_folder ctx folder_pos =
     ebind (nbu_seek ctx (sint (folder_pos + 4)) SEEK_SET) (\<lambda>ctx1.
     ebind (nbu_read_utf16 ctx1) (\<lambda>(name, ctx2).
     ebind (nbu_convert_utf16_to_utf8 name) (\<lambda>utf8.
     ebind (nbu_read_vcards ctx2 []) (\<lambda>(items, ctx3).
       Inr (\<lparr>folder_name = name, folder_items = items\<rparr>, ctx3)))))"

text \<open>
  \<open>nbu_read_vcard_section\<close> returns the list it stores through its \<open>list\<close>
  argument.
\<close>

definition nbu_read_vcard_section ::
  "nbu_ctx \<Rightarrow> uint64_t \<Rightarrow> error + (nbu_item list \<times> nbu_ctx)" where
  "nbu_read_vcard_section ctx section_pos =
     ebind (nbu_read_uint32 ctx) (\<lambda>(nitems, ctx1).
     ebind (nbu_read_uint32 ctx1) (\<lambda>(nfolders, ctx2).
       if nfolders \<noteq> 0 then Inl Section_unexpectedly_contains_folders
       else
         ebind (nbu_tell ctx2) (\<lambda>pos.
         ebind (nbu_seek ctx2 (sint (section_pos + 44)) SEEK_SET) (\<lambda>ctx3.
         ebind (nbu_read_vcards ctx3 []) (\<lambda>(list, ctx4).
         ebind (nbu_seek ctx4 pos SEEK_SET) (\<lambda>ctx5.
           Inr (list, ctx5)))))))"

text \<open>
  The shape shared by the folder tables: skip the folder id, read the folder position,
  remember the cursor, read the folder there, return to the cursor.
\<close>

fun nbu_read_vcard_folders_loop ::
  "nat \<Rightarrow> nbu_ctx \<Rightarrow> nbu_folder list \<Rightarrow> error + (nbu_folder list \<times> nbu_ctx)" where
  "nbu_read_vcard_folders_loop 0 ctx list = Inr (list, ctx)"
| "nbu_read_vcard_folders_loop (Suc n) ctx list =
     ebind (nbu_seek ctx 4 SEEK_CUR) (\<lambda>ctx1.
     ebind (nbu_read_uint64 ctx1) (\<lambda>(folder_pos, ctx2).
     ebind (nbu_tell ctx2) (\<lambda>pos.
     ebind (nbu_read_vcard_folder ctx2 folder_pos) (\<lambda>(folder, ctx3).
     ebind (nbu_seek ctx3 pos SEEK_SET) (\<lambda>ctx4.
       nbu_read_vcard_folders_loop n ctx4 (list @ [folder]))))))"

definition nbu_read_vcard_folder_section ::
  "nbu_ctx \<Rightarrow> error + (nbu_folder list \<times> nbu_ctx)" where
  "nbu_read_vcard_folder_section ctx =
     ebind (nbu_read_uint32 ctx) (\<lambda>(nitems, ctx1).
     ebind (nbu_read_uint32 ctx1) (\<lambda>(nfolders, ctx2).
       nbu_read_vcard_folders_loop (unat nfolders) ctx2 []))"

definition nbu_read_group_folder :: "nbu_ctx \<Rightarrow> uint64_t \<Rightarrow> error + (nbu_folder \<times> nbu_ctx)" where
  "nbu_read_group_folder ctx folder_pos =
     ebind (nbu_seek ctx (sint (folder_pos + 4)) SEEK_SET) (\<lambda>ctx1.
     ebind (nbu_read_utf16 ctx1) (\<lambda>(name, ctx2).
     ebind (nbu_read_uint32 ctx2) (\<lambda>(nitems, ctx3).
     ebind (nbu_convert_utf16_to_utf8 name) (\<lambda>utf8.
       Inr (\<lparr>folder_name = name, folder_items = []\<rparr>, ctx3)))))"

text \<open>The body of the loop of \<open>nbu_read_message_folder\<close> (one message record).\<close>

definition nbu_read_message :: "nbu_ctx \<Rightarrow> nbu_item list \<Rightarrow> error + (nbu_item list \<times> nbu_ctx)" where
  "nbu_read_message ctx list =
     ebind (nbu_seek ctx 8 SEEK_CUR) (\<lambda>ctx1.
     ebind (nbu_read_uint32 ctx1) (\<lambda>(len, ctx2).
     ebind (nbu_tell ctx2) (\<lambda>pos.
       let list' = nbu_add_item list pos len in
       ebind (nbu_seek ctx2 (uint len) SEEK_CUR) (\<lambda>ctx3.
         Inr (list', ctx3)))))"

fun nbu_read_messages_loop ::
  "nat \<Rightarrow> nbu_ctx \<Rightarrow> nbu_item list \<Rightarrow> error + (nbu_item list \<times> nbu_ctx)" where
  "nbu_read_messages_loop 0 ctx list = Inr (list, ctx)"
| "nbu_read_messages_loop (Suc n) ctx list =
     ebind (nbu_read_message ctx list) (\<lambda>(list', ctx'). nbu_read_messages_loop n ctx' list')"

definition nbu_read_message_folder :: "nbu_ctx \<Rightarrow> uint64_t \<Rightarrow> error + (nbu_folder \<times> nbu_ctx)" where
  "nbu_read_message_folder ctx folder_pos =
     ebind (nbu_seek ctx (sint (folder_pos + 4)) SEEK_SET) (\<lambda>ctx1.
     ebind (nbu_read_utf16 ctx1) (\<lambda>(name, ctx2).
     ebind (nbu_read_uint32 ctx2) (\<lambda>(nitems, ctx3).
     ebind (nbu_convert_utf16_to_utf8 name) (\<lambda>utf8.
     ebind (nbu_read_messages_loop (unat nitems) ctx3 []) (\<lambda>(items, ctx4).
       Inr (\<lparr>folder_name = name, folder_items = items\<rparr>, ctx4))))))"

text \<open>The inner loop of \<open>nbu_read_mms_folder\<close>: \<open>n\<close> strings that are read and freed.\<close>

fun nbu_read_mms_strings :: "nat \<Rightarrow> nbu_ctx \<Rightarrow> error + nbu_ctx" where
  "nbu_read_mms_strings 0 ctx = Inr ctx"
| "nbu_read_mms_strings (Suc n) ctx =
     ebind (nbu_seek ctx 8 SEEK_CUR) (\<lambda>ctx1.
     ebind (nbu_read_utf16 ctx1) (\<lambda>(utf16, ctx2).
     ebind (nbu_convert_utf16_to_utf8 utf16) (\<lambda>utf8.
       nbu_read_mms_strings n ctx2)))"

text \<open>The body of the outer loop of \<open>nbu_read_mms_folder\<close> (one MMS record).\<close>

definition nbu_read_mms :: "nbu_ctx \<Rightarrow> nbu_item list \<Rightarrow> error + (nbu_item list \<times> nbu_ctx)" where
  "nbu_read_mms ctx list =
     ebind (nbu_seek ctx 8 SEEK_CUR) (\<lambda>ctx1.
     ebind (nbu_read_uint8 ctx1) (\<lambda>(n, ctx2).
     ebind (nbu_read_mms_strings (unat n) ctx2) (\<lambda>ctx3.
     ebind (nbu_seek ctx3 20 SEEK_CUR) (\<lambda>ctx4.
     ebind (nbu_read_uint32 ctx4) (\<lambda>(len, ctx5).
     ebind (nbu_tell ctx5) (\<lambda>pos.
       let list' = nbu_add_item list pos len in
       ebind (nbu_seek ctx5 (uint len) SEEK_CUR) (\<lambda>ctx6.
         Inr (list', ctx6))))))))"

fun nbu_read_mmses_loop ::
  "nat \<Rightarrow> nbu_ctx \<Rightarrow> nbu_item list \<Rightarrow> error + (nbu_item list \<times> nbu_ctx)" where
  "nbu_read_mmses_loop 0 ctx list = Inr (list, ctx)"
| "nbu_read_mmses_loop (Suc n) ctx list =
     ebind (nbu_read_mms ctx list) (\<lambda>(list', ctx'). nbu_read_mmses_loop n ctx' list')"

definition nbu_read_mms_folder :: "nbu_ctx \<Rightarrow> uint64_t \<Rightarrow> error + (nbu_folder \<times> nbu_ctx)" where
  "nbu_read_mms_folder ctx folder_pos =
     ebind (nbu_seek ctx (sint (folder_pos + 4)) SEEK_SET) (\<lambda>ctx1.
     ebind (nbu_read_utf16 ctx1) (\<lambda>(name, ctx2).
     ebind (nbu_read_uint32 ctx2) (\<lambda>(nitems, ctx3).
     ebind (nbu_convert_utf16_to_utf8 name) (\<lambda>utf8.
     ebind (nbu_read_mmses_loop (unat nitems) ctx3 []) (\<lambda>(items, ctx4).
       Inr (\<lparr>folder_name = name, folder_items = items\<rparr>, ctx4))))))"

fun nbu_read_advanced_settings_loop :: "nat \<Rightarrow> nbu_ctx \<Rightarrow> error + nbu_ctx" where
  "nbu_read_advanced_settings_loop 0 ctx = Inr ctx"
| "nbu_read_advanced_settings_loop (Suc n) ctx =
     ebind (nbu_seek ctx 4 SEEK_CUR) (\<lambda>ctx1.
     ebind (nbu_read_uint64 ctx1) (\<lambda>(folder_pos, ctx2).
     ebind (nbu_tell ctx2) (\<lambda>pos.
     ebind (nbu_seek ctx2 pos SEEK_SET) (\<lambda>ctx3.
       nbu_read_advanced_settings_loop n ctx3))))"

definition nbu_read_advanced_settings_section :: "nbu_ctx \<Rightarrow> uint64_t \<Rightarrow> error + nbu_ctx" where
  "nbu_read_advanced_settings_section ctx section_pos =
     ebind (nbu_read_uint32 ctx) (\<lambda>(n, ctx1).
     ebind (nbu_read_uint32 ctx1) (\<lambda>(nfolders, ctx2).
       nbu_read_advanced_settings_loop (unat nfolders) ctx2))"

definition nbu_read_bookmarks_section :: "nbu_ctx \<Rightarrow> uint64_t \<Rightarrow> error + nbu_ctx" where
  "nbu_read_bookmarks_section ctx section_pos =
     ebind (nbu_read_vcard_folder_section ctx) (\<lambda>(list, ctx').
       Inr (ctx'\<lparr>bookmarks := Some list\<rparr>))"

definition nbu_read_calendar_section :: "nbu_ctx \<Rightarrow> uint64_t \<Rightarrow> error + nbu_ctx" where
  "nbu_read_calendar_section ctx section_pos =
     ebind (nbu_read_vcard_section ctx section_pos) (\<lambda>(list, ctx').
       Inr (ctx'\<lparr>calendar := Some list\<rparr>))"

definition nbu_read_contacts_section :: "nbu_ctx \<Rightarrow> uint64_t \<Rightarrow> error + nbu_ctx" where
  "nbu_read_contacts_section ctx section_pos =
     ebind (nbu_read_vcard_section ctx section_pos) (\<lambda>(list, ctx').
       Inr (ctx'\<lparr>contacts := Some list\<rparr>))"

fun nbu_read_groups_loop :: "nat \<Rightarrow> nbu_ctx \<Rightarrow> error + nbu_ctx" where
  "nbu_read_groups_loop 0 ctx = Inr ctx"
| "nbu_read_groups_loop (Suc n) ctx =
     ebind (nbu_seek ctx 4 SEEK_CUR) (\<lambda>ctx1.
     ebind (nbu_read_uint64 ctx1) (\<lambda>(folder_pos, ctx2).
     ebind (nbu_tell ctx2) (\<lambda>pos.
     ebind (nbu_read_group_folder ctx2 folder_pos) (\<lambda>(folder, ctx3).
     ebind (nbu_seek ctx3 pos SEEK_SET) (\<lambda>ctx4.
       nbu_read_groups_loop n ctx4)))))"

definition nbu_read_groups_section :: "nbu_ctx \<Rightarrow> uint64_t \<Rightarrow> error + nbu_ctx" where
  "nbu_read_groups_section ctx section_pos =
     ebind (nbu_read_uint32 ctx) (\<lambda>(n, ctx1).
     ebind (nbu_read_uint32 ctx1) (\<lambda>(ngroups, ctx2).
       nbu_read_groups_loop (unat ngroups) ctx2))"

text \<open>The body of the loop of \<open>nbu_read_memos_section\<close> (one memo record).\<close>

definition nbu_read_memo :: "nbu_ctx \<Rightarrow> nbu_item list \<Rightarrow> error + (nbu_item list \<times> nbu_ctx)" where
  "nbu_read_memo ctx list =
     ebind (nbu_seek ctx 4 SEEK_CUR) (\<lambda>ctx1.
     ebind (nbu_read_uint16 ctx1) (\<lambda>(len, ctx2).
       if len > 0xFFFF div 2 then Inl Memo_too_large
       else
         let len2 = len * 2 in
         ebind (nbu_tell ctx2) (\<lambda>memo_pos.
           let list' = nbu_add_item list memo_pos (ucast len2) in
           ebind (nbu_seek ctx2 (uint len2) SEEK_CUR) (\<lambda>ctx3.
             Inr (list', ctx3)))))"

fun nbu_read_memos_loop ::
  "nat \<Rightarrow> nbu_ctx \<Rightarrow> nbu_item list \<Rightarrow> error + (nbu_item list \<times> nbu_ctx)" where
  "nbu_read_memos_loop 0 ctx list = Inr (list, ctx)"
| "nbu_read_memos_loop (Suc n) ctx list =
     ebind (nbu_read_memo ctx list) (\<lambda>(list', ctx'). nbu_read_memos_loop n ctx' list')"

text \<open>
  \<open>nbu_read_memos_section\<close>, \<open>nbu_read_messages_section\<close> and
  \<open>nbu_read_mms_section\<close> store the new, empty list in the context first; the list
  under construction is threaded through the loop and is the value of the field on
  return.
\<close>

definition nbu_read_memos_section :: "nbu_ctx \<Rightarrow> uint64_t \<Rightarrow> error + nbu_ctx" where
  "nbu_read_memos_section ctx section_pos =
     ebind (nbu_read_uint32 (ctx\<lparr>memos := Some []\<rparr>)) (\<lambda>(nmemos, ctx1).
     ebind (nbu_tell ctx1) (\<lambda>pos.
     ebind (nbu_seek ctx1 (sint (section_pos + 48)) SEEK_SET) (\<lambda>ctx2.
     ebind (nbu_read_memos_loop (unat nmemos) ctx2 []) (\<lambda>(list, ctx3).
     ebind (nbu_seek (ctx3\<lparr>memos := Some list\<rparr>) (pos + 4) SEEK_SET) (\<lambda>ctx4.
       Inr ctx4)))))"

fun nbu_read_message_folders_loop ::
  "nat \<Rightarrow> nbu_ctx \<Rightarrow> nbu_folder list \<Rightarrow> error + (nbu_folder list \<times> nbu_ctx)" where
  "nbu_read_message_folders_loop 0 ctx list = Inr (list, ctx)"
| "nbu_read_message_folders_loop (Suc n) ctx list =
     ebind (nbu_seek ctx 4 SEEK_CUR) (\<lambda>ctx1.
     ebind (nbu_read_uint64 ctx1) (\<lambda>(folder_pos, ctx2).
     ebind (nbu_tell ctx2) (\<lambda>pos.
     ebind (nbu_read_message_folder ctx2 folder_pos) (\<lambda>(folder, ctx3).
     ebind (nbu_seek ctx3 pos SEEK_SET) (\<lambda>ctx4.
       nbu_read_message_folders_loop n ctx4 (list @ [folder]))))))"

definition nbu_read_messages_section :: "nbu_ctx \<Rightarrow> uint64_t \<Rightarrow> error + nbu_ctx" where
  "nbu_read_messages_section ctx section_pos =
     ebind (nbu_read_uint32 (ctx\<lparr>messages := Some []\<rparr>)) (\<lambda>(nmessages, ctx1).
     ebind (nbu_read_uint32 ctx1) (\<lambda>(nfolders, ctx2).
     ebind (nbu_read_message_folders_loop (unat nfolders) ctx2 []) (\<lambda>(list, ctx3).
       Inr (ctx3\<lparr>messages := Some list\<rparr>))))"

fun nbu_read_mms_folders_loop ::
  "nat \<Rightarrow> nbu_ctx \<Rightarrow> nbu_folder list \<Rightarrow> error + (nbu_folder list \<times> nbu_ctx)" where
  "nbu_read_mms_folders_loop 0 ctx list = Inr (list, ctx)"
| "nbu_read_mms_folders_loop (Suc n) ctx list =
     ebind (nbu_seek ctx 4 SEEK_CUR) (\<lambda>ctx1.
     ebind (nbu_read_uint64 ctx1) (\<lambda>(folder_pos, ctx2).
     ebind (nbu_tell ctx2) (\<lambda>pos.
     ebind (nbu_read_mms_folder ctx2 folder_pos) (\<lambda>(folder, ctx3).
     ebind (nbu_seek ctx3 pos SEEK_SET) (\<lambda>ctx4.
       nbu_read_mms_folders_loop n ctx4 (list @ [folder]))))))"

definition nbu_read_mms_section :: "nbu_ctx \<Rightarrow> uint64_t \<Rightarrow> error + nbu_ctx" where
  "nbu_read_mms_section ctx section_pos =
     ebind (nbu_read_uint32 (ctx\<lparr>mmses := Some []\<rparr>)) (\<lambda>(nmessages, ctx1).
     ebind (nbu_read_uint32 ctx1) (\<lambda>(nfolders, ctx2).
     ebind (nbu_read_mms_folders_loop (unat nfolders) ctx2 []) (\<lambda>(list, ctx3).
       Inr (ctx3\<lparr>mmses := Some list\<rparr>))))"

section \<open>Section dispatcher\<close>

text \<open>\<open>nbu_sections\<close>: the table of section identifiers and their handlers, in its order.\<close>

definition nbu_sections :: "(uint8_t list \<times> (nbu_ctx \<Rightarrow> uint64_t \<Rightarrow> error + nbu_ctx)) list" where
  "nbu_sections =
     [([0x16, 0xcd, 0xf8, 0xe8, 0x23, 0x5e, 0x5a, 0x4e,
        0xb7, 0x35, 0xdd, 0xdf, 0xf1, 0x48, 0x12, 0x22], nbu_read_calendar_section),
      ([0x1f, 0x0e, 0x58, 0x65, 0xa1, 0x9f, 0x3c, 0x49,
        0x9e, 0x23, 0x0e, 0x25, 0xeb, 0x24, 0x0f, 0xe1], nbu_read_groups_section),
      ([0x2d, 0xf5, 0x68, 0x6b, 0x1f, 0x4b, 0x22, 0x4a,
        0x92, 0x83, 0x1b, 0x06, 0xc3, 0xc3, 0x9a, 0x35], nbu_read_advanced_settings_section),
      ([0x47, 0x1d, 0xd4, 0x65, 0xef, 0xe3, 0x32, 0x40,
        0x8c, 0x77, 0x64, 0xca, 0xa3, 0x83, 0xaa, 0x33], nbu_read_mms_section),
      ([0x5c, 0x62, 0x97, 0x3b, 0xdc, 0xa7, 0x54, 0x41,
        0xa1, 0xc3, 0x05, 0x9d, 0xe3, 0x24, 0x68, 0x08], nbu_read_memos_section),
      ([0x61, 0x7a, 0xef, 0xd1, 0xaa, 0xbe, 0xa1, 0x49,
        0x9d, 0x9d, 0x15, 0x5a, 0xbb, 0x4c, 0xeb, 0x8e], nbu_read_messages_section),
      ([0x7f, 0x77, 0x90, 0x56, 0x31, 0xf9, 0x57, 0x49,
        0x8d, 0x96, 0xee, 0x44, 0x5d, 0xbe, 0xbc, 0x5a], nbu_read_bookmarks_section),
      ([0xef, 0xd4, 0x2e, 0xd0, 0xa3, 0x51, 0x38, 0x47,
        0x9d, 0xd7, 0x30, 0x5c, 0x7a, 0xf0, 0x68, 0xd3], nbu_read_contacts_section)]"

text \<open>The linear scan of \<open>nbu_read_section\<close> over a table: the first equal identifier wins.\<close>

fun nbu_read_section_scan ::
  "(uint8_t list \<times> (nbu_ctx \<Rightarrow> uint64_t \<Rightarrow> error + nbu_ctx)) list \<Rightarrow>
   nbu_ctx \<Rightarrow> uint8_t list \<Rightarrow> uint64_t \<Rightarrow> error + nbu_ctx" where
  "nbu_read_section_scan [] ctx guid pos = Inl Unsupported_backup_section"
| "nbu_read_section_scan ((g, rd) # sections) ctx guid pos =
     (if guid = g then rd ctx pos else nbu_read_section_scan sections ctx guid pos)"

definition nbu_read_section :: "nbu_ctx \<Rightarrow> uint8_t list \<Rightarrow> uint64_t \<Rightarrow> error + nbu_ctx" where
  "nbu_read_section ctx guid pos = nbu_read_section_scan nbu_sections ctx guid pos"

definition NBU_GUID_LEN :: nat where
  "NBU_GUID_LEN = 16"

fun nbu_read_sections_loop :: "nat \<Rightarrow> nbu_ctx \<Rightarrow> error + nbu_ctx" where
  "nbu_read_sections_loop 0 ctx = Inr ctx"
| "nbu_read_sections_loop (Suc n) ctx =
     ebind (nbu_read ctx NBU_GUID_LEN) (\<lambda>(guid, ctx1).
     ebind (nbu_read_uint64 ctx1) (\<lambda>(pos, ctx2).
     ebind (nbu_seek ctx2 8 SEEK_CUR) (\<lambda>ctx3.
     ebind (nbu_read_section ctx3 guid pos) (\<lambda>ctx4.
       nbu_read_sections_loop n ctx4))))"

definition nbu_read_sections :: "nbu_ctx \<Rightarrow> error + nbu_ctx" where
  "nbu_read_sections ctx =
     ebind (nbu_read_uint32 ctx) (\<lambda>(nsections, ctx1).
       nbu_read_sections_loop (unat nsections) ctx1)"

text \<open>
  \<open>nbu_open\<close> on a file with the given content: the context starts zeroed
  (\<open>calloc\<close>) with the stream at offset 0. The result is the context on return 0.
\<close>

definition nbu_ctx_calloc :: "uint8_t list \<Rightarrow> nbu_ctx" where
  "nbu_ctx_calloc file =
     \<lparr>fp_data = file, fp_pos = 0, backup_time = 0,
      phone_imei = None, phone_model = None, phone_name = None,
      phone_firmware = None, phone_language = None,
      bookmarks = None, messages = None, mmses = None,
      calendar = None, contacts = None, memos = None\<rparr>"

definition nbu_open :: "uint8_t list \<Rightarrow> error + nbu_ctx" where
  "nbu_open file =
     ebind (nbu_seek (nbu_ctx_calloc file) 20 SEEK_SET) (\<lambda>ctx1.
     ebind (nbu_read_uint64 ctx1) (\<lambda>(pos, ctx2).
     ebind (nbu_seek ctx2 (sint (pos + 20)) SEEK_SET) (\<lambda>ctx3.
     ebind (nbu_read_file_time ctx3) (\<lambda>(t, ctx4).
     ebind (nbu_read_utf16 (ctx4\<lparr>backup_time := t\<rparr>)) (\<lambda>(imei, ctx5).
     ebind (nbu_read_utf16 (ctx5\<lparr>phone_imei := Some imei\<rparr>)) (\<lambda>(model, ctx6).
     ebind (nbu_read_utf16 (ctx6\<lparr>phone_model := Some model\<rparr>)) (\<lambda>(name, ctx7).
     ebind (nbu_read_utf16 (ctx7\<lparr>phone_name := Some name\<rparr>)) (\<lambda>(firmware, ctx8).
     ebind (nbu_read_utf16 (ctx8\<lparr>phone_firmware := Some firmware\<rparr>)) (\<lambda>(language, ctx9).
     ebind (nbu_seek (ctx9\<lparr>phone_language := Some language\<rparr>) 20 SEEK_CUR) (\<lambda>ctx10.
       nbu_read_sections ctx10))))))))))"

section \<open>Export engine\<close>

text \<open>
  The destination file system: a path is the list of its components below the working
  directory, each a byte string; a path denotes a directory, a regular file with its
  content, or nothing. The working directory itself (the empty path) is a directory.
  A descriptor returned by \<open>open\<close> or \<open>openat\<close> is the path it was opened on.
  \<open>write\<close> appends to the file and is taken to succeed.
\<close>

datatype node = Dir | File "uint8_t list"

type_synonym path = "uint8_t list list"
type_synonym filesys = "path \<Rightarrow> node option"

definition bytes_of :: "string \<Rightarrow> uint8_t list" where
  "bytes_of s = map (\<lambda>c. of_nat (of_char c)) s"

definition is_dir :: "filesys \<Rightarrow> path \<Rightarrow> bool" where
  "is_dir fs p \<longleftrightarrow> p = [] \<or> fs p = Some Dir"

definition exists_path :: "filesys \<Rightarrow> path \<Rightarrow> bool" where
  "exists_path fs p \<longleftrightarrow> p = [] \<or> fs p \<noteq> None"

text \<open>
  \<open>mkdir(p) == -1 && errno != EEXIST\<close>, the test the code makes at each directory
  it needs: \<open>Inl\<close> when the test holds, else the file system after the call.
\<close>

definition mkdir_unless_exists :: "filesys \<Rightarrow> path \<Rightarrow> error + filesys" where
  "mkdir_unless_exists fs p =
     (if exists_path fs p then Inr fs
      else if is_dir fs (butlast p) then Inr (fs(p \<mapsto> Dir))
      else Inl Mkdir_failed)"

text \<open>\<open>open(path, O_RDONLY | O_DIRECTORY)\<close>.\<close>

definition open_directory :: "filesys \<Rightarrow> path \<Rightarrow> error + path" where
  "open_directory fs p = (if is_dir fs p then Inr p else Inl Open_failed)"

text \<open>\<open>openat(dfd, name, O_WRONLY | O_CREAT | O_EXCL, 0666)\<close>.\<close>

definition openat_excl :: "filesys \<Rightarrow> path \<Rightarrow> path \<Rightarrow> error + (path \<times> filesys)" where
  "openat_excl fs dfd name =
     (let p = dfd @ name
      in if name \<noteq> [] \<and> \<not> exists_path fs p \<and> is_dir fs (butlast p)
         then Inr (p, fs(p \<mapsto> File []))
         else Inl Openat_failed)"

definition nbu_write :: "filesys \<Rightarrow> path \<Rightarrow> uint8_t list \<Rightarrow> filesys" where
  "nbu_write fs fd buf =
     (case fs fd of Some (File content) \<Rightarrow> fs(fd \<mapsto> File (content @ buf)) | _ \<Rightarrow> fs)"

text \<open>The C string held in a buffer: its bytes before the first NUL.\<close>

definition c_string :: "uint8_t list \<Rightarrow> uint8_t list" where
  "c_string buf = takeWhile (\<lambda>b. b \<noteq> 0) buf"

definition NBU_CALENDAR_FILE :: "uint8_t list" where
  "NBU_CALENDAR_FILE = bytes_of ''calendar.ics''"

definition NBU_CONTACTS_FILE :: "uint8_t list" where
  "NBU_CONTACTS_FILE = bytes_of ''contacts.vcf''"

definition NBU_MEMOS_DIR :: "uint8_t list" where
  "NBU_MEMOS_DIR = bytes_of ''memos''"

definition NBU_MESSAGES_DIR :: "uint8_t list" where
  "NBU_MESSAGES_DIR = bytes_of ''messages''"

text \<open>
  The export functions read the backup at absolute offsets only, so of the context they
  use the file content; the position indicator they leave behind is not part of their
  result. The result of each is its outcome and the file system it leaves.
\<close>

definition nbu_export_item_to_fd ::
  "nbu_ctx \<Rightarrow> nbu_item \<Rightarrow> path \<Rightarrow> filesys \<Rightarrow> (error + unit) \<times> filesys" where
  "nbu_export_item_to_fd ctx item fd fs =
     (case ebind (nbu_seek ctx (item_pos item) SEEK_SET) (\<lambda>ctx1.
             nbu_read ctx1 (unat (item_len item))) of
        Inl e \<Rightarrow> (Inl e, fs)
      | Inr (buf, ctx2) \<Rightarrow> (Inr (), nbu_write fs fd buf))"

definition nbu_export_utf16_item_to_fd ::
  "nbu_ctx \<Rightarrow> nbu_item \<Rightarrow> path \<Rightarrow> filesys \<Rightarrow> (error + unit) \<times> filesys" where
  "nbu_export_utf16_item_to_fd ctx item fd fs =
     (if item_len item mod 2 \<noteq> 0 then (Inl Invalid_item_size, fs)
      else
        let len = ucast (item_len item div 2) :: size_t in
        case ebind (nbu_seek ctx (item_pos item) SEEK_SET) (\<lambda>ctx1.
             ebind (nbu_read_utf16_n ctx1 len) (\<lambda>(utf16, ctx2).
               nbu_convert_utf16_to_utf8 utf16)) of
          Inl e \<Rightarrow> (Inl e, fs)
        | Inr utf8 \<Rightarrow> (Inr (), nbu_write fs fd (c_string utf8)))"

definition nbu_export_utf16_item ::
  "nbu_ctx \<Rightarrow> nbu_item \<Rightarrow> path \<Rightarrow> path \<Rightarrow> filesys \<Rightarrow> (error + unit) \<times> filesys" where
  "nbu_export_utf16_item ctx item dfd name fs =
     (case openat_excl fs dfd name of
        Inl e \<Rightarrow> (Inl e, fs)
      | Inr (fd, fs1) \<Rightarrow> nbu_export_utf16_item_to_fd ctx item fd fs1)"

text \<open>A \<open>STAILQ_FOREACH\<close> that returns at the first item whose export fails.\<close>

fun nbu_export_items_to_fd ::
  "nbu_ctx \<Rightarrow> nbu_item list \<Rightarrow> path \<Rightarrow> filesys \<Rightarrow> (error + unit) \<times> filesys" where
  "nbu_export_items_to_fd ctx [] fd fs = (Inr (), fs)"
| "nbu_export_items_to_fd ctx (item # list) fd fs =
     (case nbu_export_item_to_fd ctx item fd fs of
        (Inl e, fs1) \<Rightarrow> (Inl e, fs1)
      | (Inr u, fs1) \<Rightarrow> nbu_export_items_to_fd ctx list fd fs1)"

definition nbu_export_item_list ::
  "nbu_ctx \<Rightarrow> nbu_item list option \<Rightarrow> path \<Rightarrow> path \<Rightarrow> filesys \<Rightarrow> (error + unit) \<times> filesys" where
  "nbu_export_item_list ctx list dfd name fs =
     (if list = None \<or> list = Some [] then (Inr (), fs)
      else
        case openat_excl fs dfd name of
          Inl e \<Rightarrow> (Inl e, fs)
        | Inr (fd, fs1) \<Rightarrow> nbu_export_items_to_fd ctx (the list) fd fs1)"

fun nbu_export_utf16_items_to_fd ::
  "nbu_ctx \<Rightarrow> nbu_item list \<Rightarrow> path \<Rightarrow> filesys \<Rightarrow> (error + unit) \<times> filesys" where
  "nbu_export_utf16_items_to_fd ctx [] fd fs = (Inr (), fs)"
| "nbu_export_utf16_items_to_fd ctx (item # list) fd fs =
     (case nbu_export_utf16_item_to_fd ctx item fd fs of
        (Inl e, fs1) \<Rightarrow> (Inl e, fs1)
      | (Inr u, fs1) \<Rightarrow> nbu_export_utf16_items_to_fd ctx list fd fs1)"

text \<open>
  \<open>asprintf\<close> allocates the string it formats and fails when it cannot. Whether the
  allocation of a given name succeeds is not decided by the program: the export functions
  take it from their first argument, a predicate on the name asked for. (Every other
  allocation of the program is followed by a clean error return and is taken to succeed.)
\<close>

type_synonym allocator = "path \<Rightarrow> bool"

definition asprintf :: "allocator \<Rightarrow> path \<Rightarrow> path option" where
  "asprintf mem name = (if mem name then Some name else None)"

text \<open>
  When \<open>asprintf\<close> fails, \<open>nbu_export_message_folder\<close> prints a warning and
  frees \<open>base\<close>, but it does not return: it goes on to free \<open>base\<close> a second
  time and to pass the unset pointer \<open>name\<close> to \<open>openat\<close>. From there on the
  behaviour of the program is undefined, which is the result \<open>None\<close>; a function that
  calls one whose behaviour is undefined has no defined behaviour either.
\<close>

definition nbu_export_message_folder ::
  "allocator \<Rightarrow> nbu_ctx \<Rightarrow> nbu_folder \<Rightarrow> path \<Rightarrow> uint8_t list \<Rightarrow> filesys \<Rightarrow>
   ((error + unit) \<times> filesys) option" where
  "nbu_export_message_folder mem ctx folder dfd dir fs =
     (case nbu_convert_utf16_to_utf8 (folder_name folder) of
        Inl e \<Rightarrow> Some (Inl e, fs)
      | Inr utf8 \<Rightarrow>
          let base = c_string utf8 in
          if base = [] \<or> 0x2f \<in> set base \<or> base = bytes_of ''.'' \<or> base = bytes_of ''..''
          then Some (Inl Invalid_folder_name, fs)
          else
            case asprintf mem [dir, base @ bytes_of ''.vmg''] of
              None \<Rightarrow> None
            | Some name \<Rightarrow>
                (case openat_excl fs dfd name of
                   Inl e \<Rightarrow> Some (Inl e, fs)
                 | Inr (fd, fs1) \<Rightarrow>
                     Some (nbu_export_utf16_items_to_fd ctx (folder_items folder) fd fs1)))"

definition nbu_export_calendar :: "nbu_ctx \<Rightarrow> path \<Rightarrow> filesys \<Rightarrow> (error + unit) \<times> filesys" where
  "nbu_export_calendar ctx dfd fs =
     nbu_export_item_list ctx (calendar ctx) dfd [NBU_CALENDAR_FILE] fs"

definition nbu_export_contacts :: "nbu_ctx \<Rightarrow> path \<Rightarrow> filesys \<Rightarrow> (error + unit) \<times> filesys" where
  "nbu_export_contacts ctx dfd fs =
     nbu_export_item_list ctx (contacts ctx) dfd [NBU_CONTACTS_FILE] fs"

text \<open>\<open>%d\<close> of a positive number.\<close>

fun decimal :: "nat \<Rightarrow> uint8_t list" where
  "decimal n =
     (if n < 10 then [of_nat (48 + n)] else decimal (n div 10) @ [of_nat (48 + n mod 10)])"

declare decimal.simps [simp del]

text \<open>
  The loop of \<open>nbu_export_memos\<close>: \<open>i\<close> numbers the next memo and \<open>ret\<close> is the
  outcome so far; a memo that fails sets \<open>ret\<close> to \<open>-1\<close> and the loop goes on.
\<close>

fun nbu_export_memos_loop ::
  "nbu_ctx \<Rightarrow> nbu_item list \<Rightarrow> path \<Rightarrow> nat \<Rightarrow> int \<Rightarrow> filesys \<Rightarrow> int \<times> filesys" where
  "nbu_export_memos_loop ctx [] dfd i ret fs = (ret, fs)"
| "nbu_export_memos_loop ctx (item # list) dfd i ret fs =
     (let name = [NBU_MEMOS_DIR, bytes_of ''memo-'' @ decimal i @ bytes_of ''.txt''];
          r = nbu_export_utf16_item ctx item dfd name fs
      in nbu_export_memos_loop ctx list dfd (i + 1)
           (if isl (fst r) then - 1 else ret) (snd r))"

definition nbu_export_memos :: "nbu_ctx \<Rightarrow> path \<Rightarrow> filesys \<Rightarrow> int \<times> filesys" where
  "nbu_export_memos ctx dfd fs =
     (if memos ctx = None \<or> memos ctx = Some [] then (0, fs)
      else
        case mkdir_unless_exists fs (dfd @ [NBU_MEMOS_DIR]) of
          Inl e \<Rightarrow> (- 1, fs)
        | Inr fs1 \<Rightarrow> nbu_export_memos_loop ctx (the (memos ctx)) dfd 1 0 fs1)"

text \<open>The loop of \<open>nbu_export_messages\<close>, of the same shape.\<close>

fun nbu_export_messages_loop ::
  "allocator \<Rightarrow> nbu_ctx \<Rightarrow> nbu_folder list \<Rightarrow> path \<Rightarrow> int \<Rightarrow> filesys \<Rightarrow>
   (int \<times> filesys) option" where
  "nbu_export_messages_loop mem ctx [] dfd ret fs = Some (ret, fs)"
| "nbu_export_messages_loop mem ctx (folder # list) dfd ret fs =
     (case nbu_export_message_folder mem ctx folder dfd NBU_MESSAGES_DIR fs of
        None \<Rightarrow> None
      | Some r \<Rightarrow>
          nbu_export_messages_loop mem ctx list dfd (if isl (fst r) then - 1 else ret) (snd r))"

definition nbu_export_messages ::
  "allocator \<Rightarrow> nbu_ctx \<Rightarrow> path \<Rightarrow> filesys \<Rightarrow> (int \<times> filesys) option" where
  "nbu_export_messages mem ctx dfd fs =
     (if messages ctx = None \<or> messages ctx = Some [] then Some (0, fs)
      else
        case mkdir_unless_exists fs (dfd @ [NBU_MESSAGES_DIR]) of
          Inl e \<Rightarrow> Some (- 1, fs)
        | Inr fs1 \<Rightarrow> nbu_export_messages_loop mem ctx (the (messages ctx)) dfd 0 fs1)"

definition nbu_export ::
  "allocator \<Rightarrow> nbu_ctx \<Rightarrow> path \<Rightarrow> filesys \<Rightarrow> (int \<times> filesys) option" where
  "nbu_export mem ctx path fs =
     (case mkdir_unless_exists fs path of
        Inl e \<Rightarrow> Some (- 1, fs)
      | Inr fs0 \<Rightarrow>
          (case open_directory fs0 path of
             Inl e \<Rightarrow> Some (- 1, fs0)
           | Inr dfd \<Rightarrow>
               let r1 = nbu_export_calendar ctx dfd fs0;
                   ret1 = (if isl (fst r1) then - 1 else 0);
                   r2 = nbu_export_contacts ctx dfd (snd r1);
                   ret2 = (if isl (fst r2) then - 1 else ret1);
                   r3 = nbu_export_memos ctx dfd (snd r2);
                   ret3 = (if fst r3 = - 1 then - 1 else ret2)
               in case nbu_export_messages mem ctx dfd (snd r3) of
                    None \<Rightarrow> None
                  | Some r4 \<Rightarrow> Some (if fst r4 = - 1 then - 1 else ret3, snd r4)))"

section \<open>Notions used in the statements\<close>

text \<open>The little-endian value stored at an offset of the file.\<close>

definition le_at :: "nbu_ctx \<Rightarrow> nat \<Rightarrow> nat \<Rightarrow> 'a::len word" where
  "le_at ctx off n = le_to_host (take n (drop off (fp_data ctx)))"

text \<open>The code units stored from an offset of the file on.\<close>

definition units_at :: "nbu_ctx \<Rightarrow> nat \<Rightarrow> nat \<Rightarrow> uint16_t list" where
  "units_at ctx off n = map (\<lambda>i. le_at ctx (off + 2 * i) 2) [0..<n]"

text \<open>
  A file is of moderate size when no position reached by reading it, advanced by one
  32-bit length, overflows a \<open>long\<close>.
\<close>

definition moderate_size :: "nbu_ctx \<Rightarrow> bool" where
  "moderate_size ctx \<longleftrightarrow> int (length (fp_data ctx)) + 2 ^ 32 \<le> LONG_MAX"

text \<open>The errors of the primitive reader.\<close>

definition is_io_error :: "error \<Rightarrow> bool" where
  "is_io_error e \<longleftrightarrow> e = Unexpected_end_of_file \<or> e = Fseek_failed \<or> e = Ftell_failed"

text \<open>Two contexts that differ at most in the position of the stream.\<close>

definition stream_moved :: "nbu_ctx \<Rightarrow> nbu_ctx \<Rightarrow> bool" where
  "stream_moved ctx ctx' \<longleftrightarrow> (\<exists>p. ctx' = ctx\<lparr>fp_pos := p\<rparr>)"

text \<open>An item that starts inside the file or at its end.\<close>

definition item_in_file :: "nbu_ctx \<Rightarrow> nbu_item \<Rightarrow> bool" where
  "item_in_file ctx item \<longleftrightarrow> 0 \<le> item_pos item \<and> item_pos item \<le> int (length (fp_data ctx))"

definition items_of :: "nbu_item list option \<Rightarrow> nbu_item list" where
  "items_of list = (case list of None \<Rightarrow> [] | Some l \<Rightarrow> l)"

definition folder_items_of :: "nbu_folder list option \<Rightarrow> nbu_item list" where
  "folder_items_of list = (case list of None \<Rightarrow> [] | Some l \<Rightarrow> concat (map folder_items l))"

text \<open>Every item that a context holds, in any of its six collections.\<close>

definition nbu_ctx_items :: "nbu_ctx \<Rightarrow> nbu_item list" where
  "nbu_ctx_items ctx =
     items_of (calendar ctx) @ items_of (contacts ctx) @ items_of (memos ctx) @
     folder_items_of (bookmarks ctx) @ folder_items_of (messages ctx) @
     folder_items_of (mmses ctx)"

text \<open>
  The sections without a folder table: calendar, memos and contacts. Their inline fields
  are the 8 bytes after the table entry. The other five sections (groups, advanced
  settings, MMS, messages, bookmarks) have a 32-bit folder count at offset 4 of the inline
  fields, followed by one entry of 12 bytes for each folder.
\<close>

definition has_folder_table :: "uint8_t list \<Rightarrow> bool" where
  "has_folder_table guid \<longleftrightarrow>
     guid \<noteq> [0x16, 0xcd, 0xf8, 0xe8, 0x23, 0x5e, 0x5a, 0x4e,
              0xb7, 0x35, 0xdd, 0xdf, 0xf1, 0x48, 0x12, 0x22] \<and>
     guid \<noteq> [0x5c, 0x62, 0x97, 0x3b, 0xdc, 0xa7, 0x54, 0x41,
              0xa1, 0xc3, 0x05, 0x9d, 0xe3, 0x24, 0x68, 0x08] \<and>
     guid \<noteq> [0xef, 0xd4, 0x2e, 0xd0, 0xa3, 0x51, 0x38, 0x47,
              0x9d, 0xd7, 0x30, 0x5c, 0x7a, 0xf0, 0x68, 0xd3]"

text \<open>The length of the inline fields of the section that starts at the position of the stream.\<close>

definition inline_fields_len :: "nbu_ctx \<Rightarrow> bool \<Rightarrow> nat" where
  "inline_fields_len ctx table =
     (if table then 8 + 12 * unat (le_at ctx (fp_pos ctx + 4) 4 :: uint32_t) else 8)"

text \<open>
  What a successful section handler leaves behind: the same file, the stream after the
  inline fields of the section, and no item but the ones the context had and ones that
  start inside the file.
\<close>

definition handler_effect :: "bool \<Rightarrow> nbu_ctx \<Rightarrow> nbu_ctx \<Rightarrow> bool" where
  "handler_effect table ctx ctx' \<longleftrightarrow>
     fp_data ctx' = fp_data ctx \<and>
     fp_pos ctx' = fp_pos ctx + inline_fields_len ctx table \<and>
     (\<forall>i\<in>set (nbu_ctx_items ctx'). i \<in> set (nbu_ctx_items ctx) \<or> item_in_file ctx i)"

text \<open>
  Reference for the item records of a calendar or contacts section, following the
  specification: \<open>n\<close> records from the offset \<open>off\<close> on. A record is a first
  validation word, a second one only if the first is \<open>0x10\<close>, and a 32-bit length,
  followed by the item of that many bytes. No value of a validation word is an error; the
  only failure is the end of the file.
\<close>

fun vcard_records :: "nbu_ctx \<Rightarrow> nat \<Rightarrow> nat \<Rightarrow> error + nbu_item list" where
  "vcard_records ctx 0 off = Inr []"
| "vcard_records ctx (Suc n) off =
     (if length (fp_data ctx) < off + 4 then Inl Unexpected_end_of_file
      else
        let len_off = (if (le_at ctx off 4 :: uint32_t) = 0x10 then off + 8 else off + 4) in
        if length (fp_data ctx) < len_off + 4 then Inl Unexpected_end_of_file
        else
          ebind (vcard_records ctx n (len_off + 4 + unat (le_at ctx len_off 4 :: uint32_t)))
            (\<lambda>items. Inr (\<lparr>item_pos = int (len_off + 4), item_len = le_at ctx len_off 4\<rparr> # items)))"

text \<open>
  Reference for the records of the memos section, following the specification: \<open>n\<close>
  records from the offset \<open>off\<close> on. A record is 4 bytes that are skipped and a 16-bit
  length in code units, which must not exceed half of the largest 16-bit value, followed
  by the memo of twice that many bytes.
\<close>

fun memo_records :: "nbu_ctx \<Rightarrow> nat \<Rightarrow> nat \<Rightarrow> error + nbu_item list" where
  "memo_records ctx 0 off = Inr []"
| "memo_records ctx (Suc n) off =
     (if length (fp_data ctx) < off + 6 then Inl Unexpected_end_of_file
      else if (le_at ctx (off + 4) 2 :: uint16_t) > 0xFFFF div 2 then Inl Memo_too_large
      else
        ebind (memo_records ctx n (off + 6 + 2 * unat (le_at ctx (off + 4) 2 :: uint16_t)))
          (\<lambda>items. Inr (\<lparr>item_pos = int (off + 6),
                               item_len = of_nat (2 * unat (le_at ctx (off + 4) 2 :: uint16_t))\<rparr> # items)))"






text \<open>The outcome of a list of attempts: \<open>-1\<close> when one of them failed.\<close>

definition outcome_of :: "(error + unit) list \<Rightarrow> int" where
  "outcome_of outcomes = (if \<exists>r\<in>set outcomes. isl r then - 1 else 0)"

section \<open>Example files and backups\<close>

text \<open>
  A memos section whose inline fields are at offset 0 and whose anchor is 0: it counts two
  memos, one of two code units and one of one code unit, from offset 48 on. And one whose
  only memo declares \<open>0x8000\<close> code units.
\<close>

definition two_memos_file :: "uint8_t list" where
  "two_memos_file =
     [2, 0, 0, 0, 0, 0, 0, 0] @ replicate 40 0 @
     [0, 0, 0, 0, 2, 0, 0x41, 0, 0x42, 0] @ [0, 0, 0, 0, 1, 0, 0x43, 0]"

definition large_memo_file :: "uint8_t list" where
  "large_memo_file = [1, 0, 0, 0, 0, 0, 0, 0] @ replicate 40 0 @ [0, 0, 0, 0, 0, 0x80]"

text \<open>
  A calendar or contacts section whose inline fields are at offset 0 and whose anchor is
  0: no folders, and two items counted at offset 44. The first record starts with the
  word \<open>0x11\<close> and has no second word; the second starts with \<open>0x10\<close> and its
  second word is \<open>0x99\<close>.
\<close>

definition vcard_section_file :: "uint8_t list" where
  "vcard_section_file =
     [2, 0, 0, 0, 0, 0, 0, 0] @ replicate 36 0 @ [2, 0, 0, 0] @
     [0x11, 0, 0, 0, 2, 0, 0, 0, 0x61, 0x62] @
     [0x10, 0, 0, 0, 0x99, 0, 0, 0, 1, 0, 0, 0, 0x63]"

text \<open>
  The inline fields of a bookmarks section at offset 0, with a folder table of one entry:
  the folder, at offset 20, is named ``B'' and has no items.
\<close>

definition bookmarks_section_file :: "uint8_t list" where
  "bookmarks_section_file =
     [0, 0, 0, 0, 1, 0, 0, 0] @ [0, 0, 0, 0, 20, 0, 0, 0, 0, 0, 0, 0] @
     [0, 0, 0, 0, 1, 0, 0x42, 0, 0, 0, 0, 0]"

text \<open>
  A container whose only section is a calendar with one item; the item's length field
  says 1000 bytes and the file ends where the item starts.
\<close>

definition calendar_file :: "uint8_t list" where
  "calendar_file =
     [0, 0, 0, 0, 0, 0, 0, 0, 0, 0, 0, 0, 0, 0, 0, 0,
      0, 0, 0, 0, 8, 0, 0, 0, 0, 0, 0, 0, 215, 1, 0, 0,
      52, 18, 0, 0, 0, 0, 0, 0, 0, 0, 0, 0, 0, 0, 0, 0,
      0, 0, 0, 0, 0, 0, 0, 0, 0, 0, 0, 0, 0, 0, 0, 0,
      0, 0, 1, 0, 0, 0, 22, 205, 248, 232, 35, 94, 90, 78, 183, 53,
      221, 223, 241, 72, 18, 34, 66, 0, 0, 0, 0, 0, 0, 0, 0, 0,
      0, 0, 0, 0, 0, 0, 1, 0, 0, 0, 0, 0, 0, 0, 1, 0,
      0, 0, 16, 0, 0, 0, 0, 0, 0, 0, 232, 3, 0, 0]"

text \<open>
  A section table at offset 0 with two entries: advanced settings (declared position
  200, beyond the end of the file) and memos (declared position 36), each followed by
  its inline fields.
\<close>

definition two_sections_table :: "uint8_t list" where
  "two_sections_table =
     [2, 0, 0, 0, 45, 245, 104, 107, 31, 75, 34, 74, 146, 131, 27, 6,
      195, 195, 154, 53, 200, 0, 0, 0, 0, 0, 0, 0, 0, 0, 0, 0,
      0, 0, 0, 0, 0, 0, 0, 0, 0, 0, 0, 0, 92, 98, 151, 59,
      220, 167, 84, 65, 161, 195, 5, 157, 227, 36, 104, 8, 36, 0, 0, 0,
      0, 0, 0, 0, 0, 0, 0, 0, 0, 0, 0, 0, 0, 0, 0, 0,
      0, 0, 0, 0]"

text \<open>
  A backup whose only collections are a bookmarks folder and an MMS folder, each with
  one item.
\<close>

definition bookmarks_mms_backup :: nbu_ctx where
  "bookmarks_mms_backup =
     (nbu_ctx_calloc [0x41, 0])
       \<lparr>bookmarks := Some [\<lparr>folder_name = [0x42, 0], folder_items = [\<lparr>item_pos = 0, item_len = 2\<rparr>]\<rparr>],
        mmses := Some [\<lparr>folder_name = [0x4d, 0], folder_items = [\<lparr>item_pos = 0, item_len = 2\<rparr>]\<rparr>]\<rparr>"



text \<open>An allocator that never fails.\<close>

definition enough_memory :: allocator where
  "enough_memory name = True"

section \<open>Properties of the transcoding primitives\<close>

lemma mask_0x3ff: "(0x3ff :: uint16_t) = mask 10"
  by (simp add: mask_eq_exp_minus_1)

lemma mask_0xfffff: "(0xFFFFF :: uint32_t) = mask 20"
  by (simp add: mask_eq_exp_minus_1)

lemma utf16_decode_surrogate_pair_ge: "0x10000 \<le> utf16_decode_surrogate_pair hi lo"
proof -
  let ?x = "push_bit 10 (ucast (hi AND 0x3ff)) OR ucast (lo AND 0x3ff) :: uint32_t"
  have "?x AND 0xFFFFF = ?x"
    unfolding mask_0x3ff mask_0xfffff
    by (rule bit_word_eqI) (auto simp: bit_simps)
  then have "?x \<le> 0xFFFFF"
    by (metis word_and_le1)
  then show ?thesis
    unfolding utf16_decode_surrogate_pair_def
    by (simp add: word_le_nat_alt unat_word_ariths)
qed

lemma high_surrogate_is_surrogate:
  assumes "utf16_is_high_surrogate u"
  shows "utf16_is_surrogate u"
proof -
  have "u AND 0xf800 = (u AND 0xfc00) AND 0xf800"
    by (simp add: and.assoc)
  also have "\<dots> = 0xd800"
    using assms by (simp add: utf16_is_high_surrogate_def)
  finally show ?thesis
    by (simp add: utf16_is_surrogate_def)
qed

text \<open>
  Claim C5, as the code has it. A high surrogate followed by a low surrogate decodes to a
  code point of at least \<open>0x10000\<close> and \<open>utf16_decode\<close> returns 2; a unit that is not
  a surrogate decodes to itself and \<open>utf16_decode\<close> returns 1; a surrogate that is not
  completed by a low surrogate decodes to U+FFFD and \<open>utf16_decode\<close> returns 0 (not 1):
  the return value 0 marks the input as invalid.
\<close>

theorem utf16_decode_cases:
  "(utf16_is_high_surrogate u1 \<and> utf16_is_low_surrogate u2 \<longrightarrow>
      0x10000 \<le> fst (utf16_decode u1 u2) \<and> snd (utf16_decode u1 u2) = 2) \<and>
   (utf16_is_surrogate u1 \<and> \<not> (utf16_is_high_surrogate u1 \<and> utf16_is_low_surrogate u2) \<longrightarrow>
      utf16_decode u1 u2 = (UTF_REPLACEMENT_CHAR, 0)) \<and>
   (\<not> utf16_is_surrogate u1 \<longrightarrow> utf16_decode u1 u2 = (ucast u1, 1))"
  using high_surrogate_is_surrogate[of u1] utf16_decode_surrogate_pair_ge[of u1 u2]
  by (auto simp: utf16_decode_def)

theorem utf16_decode_cases_witness:
  "utf16_is_high_surrogate 0xD83D \<and> utf16_is_low_surrogate 0xDE00 \<and>
   0x10000 \<le> fst (utf16_decode 0xD83D 0xDE00) \<and> snd (utf16_decode 0xD83D 0xDE00) = 2 \<and>
   utf16_is_surrogate 0xDC00 \<and> \<not> utf16_is_high_surrogate 0xDC00 \<and>
   utf16_decode 0xDC00 0xDC01 = (UTF_REPLACEMENT_CHAR, 0) \<and>
   \<not> utf16_is_surrogate 0x41 \<and> utf16_decode 0x41 0x42 = (0x41, 1)"
proof -
  have h1: "utf16_is_high_surrogate 0xD83D \<and> utf16_is_low_surrogate 0xDE00"
    by (simp add: utf16_is_high_surrogate_def utf16_is_low_surrogate_def)
  have h2: "utf16_is_surrogate 0xDC00 \<and> \<not> utf16_is_high_surrogate 0xDC00"
    by (simp add: utf16_is_surrogate_def utf16_is_high_surrogate_def)
  have h3: "\<not> utf16_is_surrogate 0x41"
    by (simp add: utf16_is_surrogate_def)
  show ?thesis
    using h1 h2 h3 utf16_decode_cases[of "0xD83D" "0xDE00"]
      utf16_decode_cases[of "0xDC00" "0xDC01"] utf16_decode_cases[of "0x41" "0x42"]
    by simp
qed

text \<open>
  Claim C5 as stated says that an unpaired surrogate reports 1 unit consumed. At the
  high surrogate \<open>0xD800\<close> followed by the letter \<open>0x41\<close> the code reports 0.
\<close>

theorem utf16_decode_unpaired_counterexample:
  "utf16_is_surrogate 0xD800 \<and>
   \<not> (utf16_is_high_surrogate 0xD800 \<and> utf16_is_low_surrogate 0x41) \<and>
   fst (utf16_decode 0xD800 0x41) = UTF_REPLACEMENT_CHAR \<and>
   snd (utf16_decode 0xD800 0x41) = 0 \<and>
   snd (utf16_decode 0xD800 0x41) \<noteq> 1"
  by (simp add: utf16_decode_def utf16_is_surrogate_def utf16_is_high_surrogate_def
      utf16_is_low_surrogate_def)

lemma utf8_encode_len_same: "snd (utf8_encode False cp) = snd (utf8_encode True cp)"
  by (simp add: utf8_encode_def)

lemma utf8_encode_length: "length (fst (utf8_encode True cp)) = unat (snd (utf8_encode True cp))"
  by (simp add: utf8_encode_def)

lemma utf8_encode_le4: "unat (snd (utf8_encode b cp)) \<le> 4"
  by (simp add: utf8_encode_def)

lemma utf16_decode_snd: "snd (utf16_decode u v) \<in> {0, 1, 2}"
  by (simp add: utf16_decode_def)

lemma unit_at_drop:
  "unit_at utf16 i = (case drop i utf16 of [] \<Rightarrow> 0 | u # _ \<Rightarrow> u)"
  by (auto simp: unit_at_def hd_drop_conv_nth split: list.splits dest: arg_cong[where f=hd])

text \<open>One step of the reference function, expressed on indices.\<close>
lemma utf8_of_utf16_drop_step:
  assumes "unit_at utf16 i \<noteq> 0"
  shows "utf8_of_utf16 (drop i utf16) =
     fst (utf8_encode True (fst (utf16_decode (unit_at utf16 i) (unit_at utf16 (i + 1))))) @
     utf8_of_utf16 (drop (i + unat (if snd (utf16_decode (unit_at utf16 i) (unit_at utf16 (i + 1))) = 0
        then 1 else snd (utf16_decode (unit_at utf16 i) (unit_at utf16 (i + 1))))) utf16)"
proof -
  from assms have i: "i < length utf16" by (auto simp: unit_at_def split: if_splits)
  then have d: "drop i utf16 = utf16 ! i # drop (Suc i) utf16"
    by (simp add: Cons_nth_drop_Suc)
  have u: "unit_at utf16 i = utf16 ! i" using i by (simp add: unit_at_def)
  show ?thesis
  proof (cases "Suc i < length utf16")
    case True
    then have d2: "drop (Suc i) utf16 = utf16 ! Suc i # drop (Suc (Suc i)) utf16"
      by (simp add: Cons_nth_drop_Suc)
    have v: "unit_at utf16 (Suc i) = utf16 ! Suc i" using True by (simp add: unit_at_def)
    show ?thesis using assms utf16_decode_snd[of "utf16 ! i" "utf16 ! Suc i"]
      by (auto simp: d d2 u v)
  next
    case False
    then have d2: "drop (Suc i) utf16 = []" by simp
    have v: "unit_at utf16 (Suc i) = 0" using False by (simp add: unit_at_def)
    have "snd (utf16_decode (utf16 ! i) 0) \<noteq> 2"
      by (simp add: utf16_decode_def utf16_is_low_surrogate_def)
    then show ?thesis using assms utf16_decode_snd[of "utf16 ! i" 0]
      by (auto simp: d d2 u v)
  qed
qed

lemma utf8_of_utf16_drop_end:
  "unit_at utf16 i = 0 \<Longrightarrow> utf8_of_utf16 (drop i utf16) = []"
  by (cases "drop i utf16" rule: utf8_of_utf16.cases) (auto simp: unit_at_drop)




lemma size_overflow: "seqlen > SIZE_MAX - buflen \<Longrightarrow> unat buflen + unat seqlen > 2 ^ 64 - 1"
proof -
  assume a: "seqlen > SIZE_MAX - buflen"
  have "unat (SIZE_MAX - buflen) = unat SIZE_MAX - unat buflen"
    by (rule unat_sub) (simp add: SIZE_MAX_def word_le_nat_alt, use unsigned_less[of buflen, where 'a=nat] in simp)
  then have "unat SIZE_MAX - unat buflen < unat seqlen" using a by (simp add: word_less_nat_alt)
  then show ?thesis by (simp add: SIZE_MAX_def)
qed

lemma size_no_overflow: "\<not> seqlen > SIZE_MAX - buflen \<Longrightarrow> unat (buflen + seqlen) = unat buflen + unat seqlen"
proof -
  assume a: "\<not> seqlen > SIZE_MAX - buflen"
  have b: "unat buflen < 2^64" using unsigned_less[of buflen, where 'a=nat] by simp
  have "unat (SIZE_MAX - buflen) = unat SIZE_MAX - unat buflen"
    by (rule unat_sub) (simp add: SIZE_MAX_def word_le_nat_alt, use b in simp)
  then have "unat seqlen \<le> unat SIZE_MAX - unat buflen" using a by (simp add: word_less_nat_alt)
  then have "unat buflen + unat seqlen < 2 ^ 64" using b by (simp add: SIZE_MAX_def)
  then show ?thesis by (simp add: unat_add_lem[THEN iffD1])
qed


lemma unat_SIZE_MAX: "unat SIZE_MAX = 2 ^ 64 - 1"
  by (simp add: SIZE_MAX_def)

lemma size_loop:
  "\<not> buf \<Longrightarrow>
   utf16_convert_loop buf bufsize utf16 i buflen out =
     (of_nat (min (unat buflen + length (utf8_of_utf16 (drop i utf16))) (2 ^ 64 - 1)), out)"
proof (induction buf bufsize utf16 i buflen out rule: utf16_convert_loop.induct)
  case (1 buf bufsize utf16 i buflen out)
  have bl: "unat buflen \<le> 2 ^ 64 - 1"
    using unsigned_less[of buflen, where 'a=nat] by simp
  show ?case
  proof (cases "unit_at utf16 i = 0")
    case True
    then show ?thesis using bl
      by (subst utf16_convert_loop.simps) (simp add: utf8_of_utf16_drop_end min_absorb1)
  next
    case False
    define cp where "cp = fst (utf16_decode (unit_at utf16 i) (unit_at utf16 (i + 1)))"
    define n0 where "n0 = snd (utf16_decode (unit_at utf16 i) (unit_at utf16 (i + 1)))"
    define n where "n = (if n0 = 0 then 1 else n0)"
    define seqlen where "seqlen = snd (utf8_encode False cp)"
    have step: "utf8_of_utf16 (drop i utf16) =
        fst (utf8_encode True cp) @ utf8_of_utf16 (drop (i + unat n) utf16)"
      using utf8_of_utf16_drop_step[OF False] by (simp add: cp_def n_def n0_def)
    have len: "length (fst (utf8_encode True cp)) = unat seqlen"
      by (simp add: seqlen_def utf8_encode_length utf8_encode_len_same)
    show ?thesis
    proof (cases "seqlen > SIZE_MAX - buflen")
      case True
      then have "unat buflen + unat seqlen > 2 ^ 64 - 1"
        by (rule size_overflow)
      then have "min (unat buflen + length (utf8_of_utf16 (drop i utf16))) (2 ^ 64 - 1) = 2 ^ 64 - 1"
        by (simp add: step len)
      moreover have "utf16_convert_loop buf bufsize utf16 i buflen out = (SIZE_MAX, out)"
        using False True \<open>\<not> buf\<close>
        by (subst utf16_convert_loop.simps) (simp add: Let_def cp_def seqlen_def)
      ultimately show ?thesis by (simp add: SIZE_MAX_def)
    next
      case nov: False
      then have sum: "unat (buflen + seqlen) = unat buflen + unat seqlen"
        by (rule size_no_overflow)
      have "utf16_convert_loop buf bufsize utf16 i buflen out =
            utf16_convert_loop buf bufsize utf16 (i + unat n) (buflen + seqlen) out"
        using False nov \<open>\<not> buf\<close>
        by (subst utf16_convert_loop.simps) (simp add: Let_def cp_def seqlen_def n_def n0_def)
      also have "\<dots> = (of_nat (min (unat (buflen + seqlen) +
                 length (utf8_of_utf16 (drop (i + unat n) utf16))) (2 ^ 64 - 1)), out)"
        using "1.IH"(1)[OF False cp_def n0_def n_def \<open>\<not> buf\<close> seqlen_def nov \<open>\<not> buf\<close>] .
      finally show ?thesis by (simp add: sum step len add.assoc)
    qed
  qed
qed


lemma fill_fits:
  fixes bufsize buflen seqlen :: size_t
  assumes "unat buflen + unat seqlen + k + 1 \<le> unat bufsize"
  shows "\<not> seqlen > bufsize - buflen - 1"
    and "unat (buflen + seqlen) = unat buflen + unat seqlen"
proof -
  have b: "unat bufsize < 2 ^ 64" using unsigned_less[of bufsize, where 'a=nat] by simp
  have le: "buflen \<le> bufsize" using assms by (simp add: word_le_nat_alt)
  have s1: "unat (bufsize - buflen) = unat bufsize - unat buflen"
    by (rule unat_sub[OF le])
  have "1 \<le> bufsize - buflen" using assms s1 by (simp add: word_le_nat_alt)
  then have "unat (bufsize - buflen - 1) = unat bufsize - unat buflen - 1"
    using s1 by (simp add: unat_sub)
  then show "\<not> seqlen > bufsize - buflen - 1"
    using assms by (simp add: word_less_nat_alt)
  have "unat buflen + unat seqlen < 2 ^ 64" using assms b by simp
  then show "unat (buflen + seqlen) = unat buflen + unat seqlen"
    by (simp add: unat_add_lem[THEN iffD1])
qed

lemma fill_loop:
  "unat buflen + length (utf8_of_utf16 (drop i utf16)) + 1 \<le> unat bufsize \<Longrightarrow>
   utf16_convert_loop True bufsize utf16 i buflen out =
     (buflen + of_nat (length (utf8_of_utf16 (drop i utf16))),
      out @ utf8_of_utf16 (drop i utf16))"
proof (induction "length utf16 - i" arbitrary: i buflen out rule: less_induct)
  case less
  show ?case
  proof (cases "unit_at utf16 i = 0")
    case True
    then show ?thesis
      by (subst utf16_convert_loop.simps) (simp add: utf8_of_utf16_drop_end)
  next
    case False
    define cp where "cp = fst (utf16_decode (unit_at utf16 i) (unit_at utf16 (i + 1)))"
    define n0 where "n0 = snd (utf16_decode (unit_at utf16 i) (unit_at utf16 (i + 1)))"
    define n where "n = (if n0 = 0 then 1 else n0)"
    define seqlen where "seqlen = snd (utf8_encode True cp)"
    define rest where "rest = utf8_of_utf16 (drop (i + unat n) utf16)"
    have i: "i < length utf16" using False by (auto simp: unit_at_def split: if_splits)
    have "n \<noteq> 0" by (simp add: n_def)
    then have npos: "0 < unat n" by (simp add: unat_gt_0)
    have step: "utf8_of_utf16 (drop i utf16) = fst (utf8_encode True cp) @ rest"
      using utf8_of_utf16_drop_step[OF False] by (simp add: cp_def n_def n0_def rest_def)
    have len: "length (fst (utf8_encode True cp)) = unat seqlen"
      by (simp add: seqlen_def utf8_encode_length)
    have fits: "unat buflen + unat seqlen + length rest + 1 \<le> unat bufsize"
      using less.prems by (simp add: step len)
    note ff = fill_fits[OF fits]
    have nb: "\<not> bufsize - buflen - 1 < snd (utf8_encode False cp)"
      using ff(1) by (simp add: utf8_encode_len_same seqlen_def)
    have "utf16_convert_loop True bufsize utf16 i buflen out =
          utf16_convert_loop True bufsize utf16 (i + unat n) (buflen + seqlen)
            (out @ fst (utf8_encode True cp))"
      using False nb
      by (subst utf16_convert_loop.simps) (simp add: Let_def cp_def seqlen_def n_def n0_def)
    also have "\<dots> = (buflen + seqlen + of_nat (length rest),
                      (out @ fst (utf8_encode True cp)) @ rest)"
      unfolding rest_def
    proof (rule less.hyps)
      show "length utf16 - (i + unat n) < length utf16 - i" using i npos by simp
      show "unat (buflen + seqlen) +
            length (utf8_of_utf16 (drop (i + unat n) utf16)) + 1 \<le> unat bufsize"
        using fits ff(2) by (simp add: rest_def)
    qed
    finally show ?thesis by (simp add: step len add.assoc)
  qed
qed

text \<open>
  Claim C9. The size-only pass (\<open>buf = NULL\<close>) returns the byte length of the UTF-8
  transcoding when that length fits a \<open>size_t\<close> and \<open>SIZE_MAX\<close> otherwise. When its
  result is not the sentinel \<open>SIZE_MAX\<close>, the fill pass on a buffer of that size plus
  one returns the same number, and the buffer then holds exactly those bytes of the
  transcoding followed by the terminating NUL.
\<close>

theorem utf16_size_then_fill:
  "fst (utf16_convert_string_to_utf8 False b utf16) =
     (if length (utf8_of_utf16 utf16) \<le> 2 ^ 64 - 1
      then of_nat (length (utf8_of_utf16 utf16)) else SIZE_MAX) \<and>
   (fst (utf16_convert_string_to_utf8 False b utf16) \<noteq> SIZE_MAX \<longrightarrow>
      unat (fst (utf16_convert_string_to_utf8 False b utf16)) = length (utf8_of_utf16 utf16) \<and>
      utf16_convert_string_to_utf8 True
          (fst (utf16_convert_string_to_utf8 False b utf16) + 1) utf16 =
        (fst (utf16_convert_string_to_utf8 False b utf16), utf8_of_utf16 utf16 @ [0]))"
proof -
  let ?L = "length (utf8_of_utf16 utf16)"
  let ?n = "fst (utf16_convert_string_to_utf8 False b utf16)"
  have n: "?n = of_nat (min ?L (2 ^ 64 - 1))"
    by (simp add: utf16_convert_string_to_utf8_def size_loop)
  have sat: "?n = (if ?L \<le> 2 ^ 64 - 1 then of_nat ?L else SIZE_MAX)"
    unfolding n by (simp add: min_def SIZE_MAX_def)
  have fill: "unat ?n = ?L \<and>
      utf16_convert_string_to_utf8 True (?n + 1) utf16 = (?n, utf8_of_utf16 utf16 @ [0])"
    if ne: "?n \<noteq> SIZE_MAX"
  proof -
    have lt: "?L < 2 ^ 64 - 1"
    proof (rule ccontr)
      assume "\<not> ?L < 2 ^ 64 - 1"
      then have "min ?L (2 ^ 64 - 1) = 2 ^ 64 - 1" by simp
      then have "?n = SIZE_MAX" unfolding n by (simp add: SIZE_MAX_def)
      with ne show False by simp
    qed
    then have nL: "?n = of_nat ?L" unfolding n by (simp add: min_def)
    have un: "unat ?n = ?L"
      unfolding nL using lt by (simp add: unat_of_nat)
    have un1: "unat (?n + 1) = ?L + 1"
      using lt un by (simp add: unat_add_lem[THEN iffD1])
    then have nz: "?n + 1 \<noteq> 0" by (metis add_is_0 unat_0 zero_neq_one)
    have "utf16_convert_loop True (?n + 1) utf16 0 0 [] =
            (0 + of_nat (length (utf8_of_utf16 (drop 0 utf16))), [] @ utf8_of_utf16 (drop 0 utf16))"
      by (rule fill_loop) (simp add: un1)
    then have "utf16_convert_string_to_utf8 True (?n + 1) utf16 = (?n, utf8_of_utf16 utf16 @ [0])"
      using nz nL by (simp add: utf16_convert_string_to_utf8_def Let_def)
    with un show ?thesis by simp
  qed
  from sat fill show ?thesis by blast
qed

theorem utf16_size_then_fill_witness:
  "fst (utf16_convert_string_to_utf8 False 0 [0x41, 0xD83D, 0xDE00, 0xD800, 0x42]) = 9 \<and>
   fst (utf16_convert_string_to_utf8 False 0 [0x41, 0xD83D, 0xDE00, 0xD800, 0x42]) \<noteq> SIZE_MAX \<and>
   utf16_convert_string_to_utf8 True 10 [0x41, 0xD83D, 0xDE00, 0xD800, 0x42] =
     (9, [0x41, 0xF0, 0x9F, 0x98, 0x80, 0xEF, 0xBF, 0xBD, 0x42, 0])"
proof -
  have ref: "utf8_of_utf16 [0x41, 0xD83D, 0xDE00, 0xD800, 0x42] =
      [0x41, 0xF0, 0x9F, 0x98, 0x80, 0xEF, 0xBF, 0xBD, 0x42]"
    by code_simp
  note t = utf16_size_then_fill[of 0 "[0x41, 0xD83D, 0xDE00, 0xD800, 0x42]", unfolded ref]
  from t have size: "fst (utf16_convert_string_to_utf8 False 0 [0x41, 0xD83D, 0xDE00, 0xD800, 0x42]) = 9"
    by simp
  then have ne: "fst (utf16_convert_string_to_utf8 False 0 [0x41, 0xD83D, 0xDE00, 0xD800, 0x42]) \<noteq> SIZE_MAX"
    by (simp add: SIZE_MAX_def)
  from t ne show ?thesis
    unfolding size by simp
qed

section \<open>Properties of the primitive reader\<close>

lemma ebind_Inr [simp]: "ebind (Inr x) f = f x"
  by (simp add: ebind_def)

lemma ebind_Inl [simp]: "ebind (Inl e) f = Inl e"
  by (simp add: ebind_def)

lemma ebind_eq_Inr_iff: "ebind m f = Inr y \<longleftrightarrow> (\<exists>x. m = Inr x \<and> f x = Inr y)"
  by (cases m) simp_all

lemma ebind_eq_Inl_iff:
  "ebind m f = Inl e \<longleftrightarrow> m = Inl e \<or> (\<exists>x. m = Inr x \<and> f x = Inl e)"
  by (cases m) simp_all

lemma nbu_read_uint8_eq:
  "nbu_read_uint8 ctx =
     (if fp_pos ctx + 1 \<le> length (fp_data ctx)
      then Inr (le_at ctx (fp_pos ctx) 1, ctx\<lparr>fp_pos := fp_pos ctx + 1\<rparr>)
      else Inl Unexpected_end_of_file)"
  by (simp add: nbu_read_uint8_def nbu_read_def le_at_def)

lemma nbu_read_uint16_eq:
  "nbu_read_uint16 ctx =
     (if fp_pos ctx + 2 \<le> length (fp_data ctx)
      then Inr (le_at ctx (fp_pos ctx) 2, ctx\<lparr>fp_pos := fp_pos ctx + 2\<rparr>)
      else Inl Unexpected_end_of_file)"
  by (simp add: nbu_read_uint16_def nbu_read_def le_at_def)

lemma nbu_read_uint32_eq:
  "nbu_read_uint32 ctx =
     (if fp_pos ctx + 4 \<le> length (fp_data ctx)
      then Inr (le_at ctx (fp_pos ctx) 4, ctx\<lparr>fp_pos := fp_pos ctx + 4\<rparr>)
      else Inl Unexpected_end_of_file)"
  by (simp add: nbu_read_uint32_def nbu_read_def le_at_def)

lemma nbu_read_uint64_eq:
  "nbu_read_uint64 ctx =
     (if fp_pos ctx + 8 \<le> length (fp_data ctx)
      then Inr (le_at ctx (fp_pos ctx) 8, ctx\<lparr>fp_pos := fp_pos ctx + 8\<rparr>)
      else Inl Unexpected_end_of_file)"
  by (simp add: nbu_read_uint64_def nbu_read_def le_at_def)

lemma le_at_fp_pos_update [simp]: "le_at (ctx\<lparr>fp_pos := p\<rparr>) off n = le_at ctx off n"
  by (simp add: le_at_def)

lemma units_at_Suc:
  "units_at ctx off (Suc n) = le_at ctx off 2 # units_at ctx (off + 2) n"
  unfolding units_at_def by (simp only: map_upt_Suc) simp

lemma units_at_fp_pos_update [simp]:
  "units_at (ctx\<lparr>fp_pos := p\<rparr>) off n = units_at ctx off n"
  by (simp add: units_at_def)

lemma length_units_at [simp]: "length (units_at ctx off n) = n"
  by (simp add: units_at_def)

lemma nbu_read_utf16_loop_ok:
  "fp_pos ctx + 2 * n \<le> length (fp_data ctx) \<Longrightarrow>
   nbu_read_utf16_loop n ctx utf16 =
     Inr (utf16 @ units_at ctx (fp_pos ctx) n, ctx\<lparr>fp_pos := fp_pos ctx + 2 * n\<rparr>)"
proof (induction n arbitrary: ctx utf16)
  case 0
  then show ?case by (simp add: units_at_def)
next
  case (Suc n)
  from Suc.prems have here: "fp_pos ctx + 2 \<le> length (fp_data ctx)" by simp
  from Suc.prems have rest:
    "fp_pos (ctx\<lparr>fp_pos := fp_pos ctx + 2\<rparr>) + 2 * n
       \<le> length (fp_data (ctx\<lparr>fp_pos := fp_pos ctx + 2\<rparr>))"
    by simp
  have "nbu_read_utf16_loop (Suc n) ctx utf16 =
        nbu_read_utf16_loop n (ctx\<lparr>fp_pos := fp_pos ctx + 2\<rparr>) (utf16 @ [le_at ctx (fp_pos ctx) 2])"
    using here by (simp add: nbu_read_uint16_eq del: add_2_eq_Suc' add_2_eq_Suc)
  also note Suc.IH[OF rest]
  finally show ?case
    by (simp add: units_at_Suc add.assoc del: add_2_eq_Suc' add_2_eq_Suc)
qed

lemma nbu_read_utf16_loop_short:
  "\<not> fp_pos ctx + 2 * n \<le> length (fp_data ctx) \<Longrightarrow> n \<noteq> 0 \<Longrightarrow>
   nbu_read_utf16_loop n ctx utf16 = Inl Unexpected_end_of_file"
proof (induction n arbitrary: ctx utf16)
  case 0
  then show ?case by simp
next
  case (Suc n)
  show ?case
  proof (cases "fp_pos ctx + 2 \<le> length (fp_data ctx)")
    case True
    from Suc.prems have rest:
      "\<not> fp_pos (ctx\<lparr>fp_pos := fp_pos ctx + 2\<rparr>) + 2 * n
         \<le> length (fp_data (ctx\<lparr>fp_pos := fp_pos ctx + 2\<rparr>))"
      by simp
    with True have "n \<noteq> 0" by auto
    have "nbu_read_utf16_loop (Suc n) ctx utf16 =
        nbu_read_utf16_loop n (ctx\<lparr>fp_pos := fp_pos ctx + 2\<rparr>) (utf16 @ [le_at ctx (fp_pos ctx) 2])"
      using True by (simp add: nbu_read_uint16_eq del: add_2_eq_Suc' add_2_eq_Suc)
    also note Suc.IH[OF rest \<open>n \<noteq> 0\<close>]
    finally show ?thesis .
  next
    case False
    then show ?thesis by (simp add: nbu_read_uint16_eq)
  qed
qed

lemma nbu_read_utf16_loop_eq:
  "nbu_read_utf16_loop n ctx utf16 =
     (if n = 0 \<or> fp_pos ctx + 2 * n \<le> length (fp_data ctx)
      then Inr (utf16 @ units_at ctx (fp_pos ctx) n, ctx\<lparr>fp_pos := fp_pos ctx + 2 * n\<rparr>)
      else Inl Unexpected_end_of_file)"
proof (cases "n = 0")
  case True
  then show ?thesis by (simp add: units_at_def)
next
  case False
  then show ?thesis
    by (simp add: nbu_read_utf16_loop_ok nbu_read_utf16_loop_short)
qed

lemma ucast_uint16_size_t_bounds:
  fixes len :: uint16_t
  shows "(ucast len :: size_t) \<noteq> SIZE_MAX"
    and "\<not> (ucast len :: size_t) + 1 > 0x7FFFFFFFFFFFFFFF"
    and "unat (ucast len :: size_t) = unat len"
proof -
  have lt: "unat len < 65536"
    using unsigned_less[of len, where 'a=nat] by simp
  show u: "unat (ucast len :: size_t) = unat len"
    by (simp add: unsigned_ucast_eq take_bit_nat_eq_self unsigned_less[of len, where 'a=nat, simplified] less_trans[OF lt])
  then show "(ucast len :: size_t) \<noteq> SIZE_MAX"
    using lt by (auto simp: SIZE_MAX_def dest!: arg_cong[where f=unat])
  have "unat ((ucast len :: size_t) + 1) = unat len + 1"
    using lt u by (simp add: unat_add_lem[THEN iffD1])
  then show "\<not> (ucast len :: size_t) + 1 > 0x7FFFFFFFFFFFFFFF"
    using lt by (simp add: word_less_nat_alt)
qed

text \<open>What the length-prefixed string read does, for every 16-bit prefix.\<close>

lemma nbu_read_utf16_eq:
  "nbu_read_utf16 ctx =
     (if fp_pos ctx + 2 \<le> length (fp_data ctx) then
        (if fp_pos ctx + 2 + 2 * unat (le_at ctx (fp_pos ctx) 2 :: uint16_t) \<le> length (fp_data ctx)
         then Inr (units_at ctx (fp_pos ctx + 2) (unat (le_at ctx (fp_pos ctx) 2 :: uint16_t)) @ [0],
                   ctx\<lparr>fp_pos := fp_pos ctx + 2 + 2 * unat (le_at ctx (fp_pos ctx) 2 :: uint16_t)\<rparr>)
         else Inl Unexpected_end_of_file)
      else Inl Unexpected_end_of_file)"
  by (simp add: nbu_read_utf16_def nbu_read_uint16_eq nbu_read_utf16_n_def
      ucast_uint16_size_t_bounds nbu_read_utf16_loop_eq)

lemma nbu_seek_cur_eq:
  "0 \<le> off \<Longrightarrow> int (fp_pos ctx) + off \<le> LONG_MAX \<Longrightarrow>
   nbu_seek ctx off SEEK_CUR = Inr (ctx\<lparr>fp_pos := fp_pos ctx + nat off\<rparr>)"
  by (simp add: nbu_seek_def Let_def nat_add_distrib)

lemma nbu_seek_set_eq:
  "0 \<le> off \<Longrightarrow> off \<le> LONG_MAX \<Longrightarrow>
   nbu_seek ctx off SEEK_SET = Inr (ctx\<lparr>fp_pos := nat off\<rparr>)"
  by (simp add: nbu_seek_def Let_def)

lemma nbu_tell_eq:
  "int (fp_pos ctx) \<le> LONG_MAX \<Longrightarrow> nbu_tell ctx = Inr (int (fp_pos ctx))"
  by (simp add: nbu_tell_def)

lemma sint_add_small:
  fixes w :: uint64_t
  assumes "uint w + k \<le> LONG_MAX" and "0 \<le> k" and "k < 256"
  shows "sint (w + word_of_int k) = uint w + k"
proof -
  have b: "uint w + k < 2 ^ 63" using assms(1) by (simp add: LONG_MAX_def)
  have k: "uint (word_of_int k :: uint64_t) = k"
    using assms(2,3) by (simp add: uint_word_of_int take_bit_int_eq_self)
  have "uint w + uint (word_of_int k :: uint64_t) < 2 ^ LENGTH(64)"
    using b k by simp
  then have u: "uint (w + word_of_int k) = uint w + k"
    using k by (simp add: uint_add_lem[THEN iffD1])
  have "sint (w + word_of_int k) = signed_take_bit 63 (uint (w + word_of_int k))"
    by (simp add: sint_uint)
  also have "\<dots> = uint w + k"
  proof -
    have "0 \<le> uint w + k" using assms(2) by simp
    moreover have "- (2 ^ 63) \<le> (0::int)" by simp
    ultimately have "- (2 ^ 63) \<le> uint w + k" by (rule order_trans[rotated])
    then show ?thesis
      unfolding u using b by (intro signed_take_bit_int_eq_self)
  qed
  finally show ?thesis .
qed

lemma nbu_read_io_error: "nbu_read ctx n = Inl e \<Longrightarrow> is_io_error e"
  by (auto simp: nbu_read_def is_io_error_def split: if_splits)

lemma nbu_read_uint32_io_error: "nbu_read_uint32 ctx = Inl e \<Longrightarrow> is_io_error e"
  by (auto simp: nbu_read_uint32_eq is_io_error_def split: if_splits)

lemma nbu_seek_io_error: "nbu_seek ctx off wh = Inl e \<Longrightarrow> is_io_error e"
  by (auto simp: nbu_seek_def Let_def is_io_error_def split: if_splits)

lemma nbu_tell_io_error: "nbu_tell ctx = Inl e \<Longrightarrow> is_io_error e"
  by (auto simp: nbu_tell_def is_io_error_def split: if_splits)


section \<open>The length-prefixed string read\<close>

text \<open>
  Claim C4, as the code has it. \<open>nbu_read_utf16\<close> never fails with
  ``UTF-16 string too long'': the guard of \<open>nbu_read_utf16_n\<close> compares the length
  with \<open>SIZE_MAX\<close>, which a 16-bit count widened to \<open>size_t\<close> never equals. For every
  count read, \<open>0xFFFF\<close> included, it returns the code units that follow, in order and
  NUL-terminated, with the stream just past them if the file holds that many, and fails
  with ``Unexpected end of file'' otherwise.
\<close>

theorem nbu_read_utf16_never_too_long:
  "nbu_read_utf16 ctx \<noteq> Inl UTF16_string_too_long \<and>
   (nbu_read_uint16 ctx = Inr (len, ctx1) \<longrightarrow>
      nbu_read_utf16 ctx =
        (if fp_pos ctx1 + 2 * unat len \<le> length (fp_data ctx1)
         then Inr (units_at ctx1 (fp_pos ctx1) (unat len) @ [0],
                   ctx1\<lparr>fp_pos := fp_pos ctx1 + 2 * unat len\<rparr>)
         else Inl Unexpected_end_of_file))"
  by (auto simp: nbu_read_utf16_eq nbu_read_uint16_eq split: if_splits)

theorem nbu_read_utf16_never_too_long_witness:
  "nbu_read_uint16 (nbu_ctx_calloc [2, 0, 0x41, 0, 0x42, 0]) =
     Inr (2, (nbu_ctx_calloc [2, 0, 0x41, 0, 0x42, 0])\<lparr>fp_pos := 2\<rparr>) \<and>
   nbu_read_utf16 (nbu_ctx_calloc [2, 0, 0x41, 0, 0x42, 0]) =
     Inr ([0x41, 0x42, 0], (nbu_ctx_calloc [2, 0, 0x41, 0, 0x42, 0])\<lparr>fp_pos := 6\<rparr>)"
proof -
  let ?c = "nbu_ctx_calloc [2, 0, 0x41, 0, 0x42, 0]"
  have h: "nbu_read_uint16 ?c = Inr (2, ?c\<lparr>fp_pos := 2\<rparr>)"
    by (simp add: nbu_read_uint16_def nbu_read_def nbu_ctx_calloc_def)
  have u: "units_at (?c\<lparr>fp_pos := 2\<rparr>) 2 2 = [0x41, 0x42]"
    by code_simp
  show ?thesis
    using nbu_read_utf16_never_too_long[of ?c 2 "?c\<lparr>fp_pos := 2\<rparr>"] h u
    by (simp add: nbu_ctx_calloc_def)
qed

lemma units_at_zeros:
  assumes "\<forall>i<n. le_at ctx (off + 2 * i) 2 = (0 :: uint16_t)"
  shows "units_at ctx off n = replicate n 0"
  using assms by (auto simp: units_at_def intro!: nth_equalityI)

text \<open>
  Claim C4 as stated fails at the prefix \<open>0xFFFF\<close>: followed by 65535 code units the
  read succeeds and returns them, and followed by nothing it fails with ``Unexpected end
  of file'', not with ``UTF-16 string too long''.
\<close>

theorem nbu_read_utf16_0xFFFF_counterexample:
  "nbu_read_uint16 (nbu_ctx_calloc (0xFF # 0xFF # replicate 131070 0)) =
     Inr (0xFFFF, (nbu_ctx_calloc (0xFF # 0xFF # replicate 131070 0))\<lparr>fp_pos := 2\<rparr>) \<and>
   nbu_read_utf16 (nbu_ctx_calloc (0xFF # 0xFF # replicate 131070 0)) =
     Inr (replicate 65535 0 @ [0],
          (nbu_ctx_calloc (0xFF # 0xFF # replicate 131070 0))\<lparr>fp_pos := 131072\<rparr>) \<and>
   nbu_read_utf16 (nbu_ctx_calloc [0xFF, 0xFF]) = Inl Unexpected_end_of_file"
proof -
  let ?c = "nbu_ctx_calloc (0xFF # 0xFF # replicate 131070 0)"
  have p: "fp_pos ?c = 0" and d: "fp_data ?c = 0xFF # 0xFF # replicate 131070 0"
    by (simp_all add: nbu_ctx_calloc_def)
  have len: "(le_at ?c 0 2 :: uint16_t) = 0xFFFF"
    by (simp add: le_at_def d)
  have z: "units_at ?c 2 65535 = replicate 65535 0"
  proof (rule units_at_zeros, intro allI impI)
    fix i :: nat assume "i < 65535"
    have "drop (2 + 2 * i) (fp_data ?c) = replicate (131070 - 2 * i) 0"
      by (simp add: d drop_Cons')
    moreover have "131070 - 2 * i \<ge> 2" using \<open>i < 65535\<close> by simp
    ultimately have "take 2 (drop (2 + 2 * i) (fp_data ?c)) = replicate 2 0"
      by (simp add: min_def)
    then show "le_at ?c (2 + 2 * i) 2 = (0 :: uint16_t)"
      by (simp add: le_at_def numeral_2_eq_2)
  qed
  have r1: "nbu_read_uint16 ?c = Inr (0xFFFF, ?c\<lparr>fp_pos := 2\<rparr>)"
    by (simp add: nbu_read_uint16_eq p d len[simplified le_at_def d, folded le_at_def] le_at_def)
  have z': "units_at ?c (Suc (Suc 0)) 65535 = replicate 65535 0"
    using z by (simp add: numeral_2_eq_2)
  have r2: "nbu_read_utf16 ?c = Inr (replicate 65535 0 @ [0], ?c\<lparr>fp_pos := 131072\<rparr>)"
    by (simp add: nbu_read_utf16_eq p d len z')
  have r3: "nbu_read_utf16 (nbu_ctx_calloc [0xFF, 0xFF]) = Inl Unexpected_end_of_file"
    by (simp add: nbu_read_utf16_eq nbu_ctx_calloc_def le_at_def)
  from r1 r2 r3 show ?thesis by simp
qed

section \<open>Export of an item through the transcoder\<close>

lemma nbu_read_utf16_n_not_invalid_size:
  "nbu_read_utf16_n ctx len \<noteq> Inl Invalid_item_size"
  by (simp add: nbu_read_utf16_n_def nbu_read_utf16_loop_eq)

lemma nbu_seek_not_invalid_size: "nbu_seek ctx off wh \<noteq> Inl Invalid_item_size"
  by (simp add: nbu_seek_def Let_def)

lemma nbu_convert_not_invalid_size: "nbu_convert_utf16_to_utf8 utf16 \<noteq> Inl Invalid_item_size"
  by (simp add: nbu_convert_utf16_to_utf8_def Let_def)

text \<open>
  Claim C10. When the recorded byte length of an item is odd,
  \<open>nbu_export_utf16_item_to_fd\<close> fails with ``Invalid item size'' and leaves the
  destination as it is: the check comes before the seek, the read and the write. When
  the length is even the function does not fail with that error.
\<close>

theorem nbu_export_utf16_item_to_fd_odd:
  "(item_len item mod 2 \<noteq> 0 \<longrightarrow>
      nbu_export_utf16_item_to_fd ctx item fd fs = (Inl Invalid_item_size, fs)) \<and>
   (item_len item mod 2 = 0 \<longrightarrow>
      fst (nbu_export_utf16_item_to_fd ctx item fd fs) \<noteq> Inl Invalid_item_size)"
proof (intro conjI impI)
  assume "item_len item mod 2 \<noteq> 0"
  then show "nbu_export_utf16_item_to_fd ctx item fd fs = (Inl Invalid_item_size, fs)"
    by (simp add: nbu_export_utf16_item_to_fd_def)
next
  assume even: "item_len item mod 2 = 0"
  define m where "m = ebind (nbu_seek ctx (item_pos item) SEEK_SET) (\<lambda>ctx1.
             ebind (nbu_read_utf16_n ctx1 (ucast (item_len item div 2))) (\<lambda>(utf16, ctx2).
               nbu_convert_utf16_to_utf8 utf16))"
  have ne: "m \<noteq> Inl Invalid_item_size"
    unfolding m_def
    by (auto simp: ebind_eq_Inl_iff nbu_seek_not_invalid_size nbu_read_utf16_n_not_invalid_size
        nbu_convert_not_invalid_size)
  have "nbu_export_utf16_item_to_fd ctx item fd fs =
        (case m of Inl e \<Rightarrow> (Inl e, fs) | Inr utf8 \<Rightarrow> (Inr (), nbu_write fs fd (c_string utf8)))"
    by (simp add: nbu_export_utf16_item_to_fd_def even Let_def m_def)
  with ne show "fst (nbu_export_utf16_item_to_fd ctx item fd fs) \<noteq> Inl Invalid_item_size"
    by (cases m) simp_all
qed

theorem nbu_export_utf16_item_to_fd_odd_witness:
  "item_len \<lparr>item_pos = 0, item_len = 3\<rparr> mod 2 \<noteq> 0 \<and>
   nbu_export_utf16_item_to_fd (nbu_ctx_calloc [0x41, 0, 0x42, 0]) \<lparr>item_pos = 0, item_len = 3\<rparr>
       [bytes_of ''f''] [[bytes_of ''f''] \<mapsto> File []] =
     (Inl Invalid_item_size, [[bytes_of ''f''] \<mapsto> File []]) \<and>
   item_len \<lparr>item_pos = 0, item_len = 4\<rparr> mod 2 = 0 \<and>
   fst (nbu_export_utf16_item_to_fd (nbu_ctx_calloc [0x41, 0, 0x42, 0]) \<lparr>item_pos = 0, item_len = 4\<rparr>
       [bytes_of ''f''] [[bytes_of ''f''] \<mapsto> File []]) \<noteq> Inl Invalid_item_size"
proof -
  have odd: "item_len \<lparr>item_pos = 0, item_len = 3\<rparr> mod 2 \<noteq> 0"
    by simp
  have even: "item_len \<lparr>item_pos = 0, item_len = 4\<rparr> mod 2 = 0"
    by simp
  note t3 = nbu_export_utf16_item_to_fd_odd[of "\<lparr>item_pos = 0, item_len = 3\<rparr>"
      "nbu_ctx_calloc [0x41, 0, 0x42, 0]" "[bytes_of ''f'']" "[[bytes_of ''f''] \<mapsto> File []]",
      THEN conjunct1, THEN mp, OF odd]
  note t4 = nbu_export_utf16_item_to_fd_odd[of "\<lparr>item_pos = 0, item_len = 4\<rparr>"
      "nbu_ctx_calloc [0x41, 0, 0x42, 0]" "[bytes_of ''f'']" "[[bytes_of ''f''] \<mapsto> File []]",
      THEN conjunct2, THEN mp, OF even]
  show ?thesis
    using odd even t3 t4 by (intro conjI) assumption+
qed

section \<open>The memos section\<close>

lemma uint16_double:
  fixes len :: uint16_t
  assumes "\<not> len > 0xFFFF div 2"
  shows "unat (ucast (len * 2) :: uint32_t) = 2 * unat len"
    and "uint (len * 2) = 2 * int (unat len)"
proof -
  from assms have le: "unat len \<le> 32767"
    by (simp add: word_less_nat_alt)
  then have m: "unat (len * 2) = 2 * unat len"
    by (simp add: unat_word_ariths)
  then show "uint (len * 2) = 2 * int (unat len)"
    by (metis of_nat_mult of_nat_numeral uint_nat)
  have "unat (ucast (len * 2) :: uint32_t) = unat (len * 2)"
    using le m by (simp add: unsigned_ucast_eq take_bit_nat_eq_self)
  with m show "unat (ucast (len * 2) :: uint32_t) = 2 * unat len"
    by simp
qed

lemma nbu_read_memo_eq:
  assumes fits: "moderate_size ctx" and avail: "fp_pos ctx + 6 \<le> length (fp_data ctx)"
  shows "nbu_read_memo ctx list =
     (if (le_at ctx (fp_pos ctx + 4) 2 :: uint16_t) > 0xFFFF div 2 then Inl Memo_too_large
      else Inr (list @ [\<lparr>item_pos = int (fp_pos ctx + 6),
                         item_len = ucast ((le_at ctx (fp_pos ctx + 4) 2 :: uint16_t) * 2)\<rparr>],
                ctx\<lparr>fp_pos := fp_pos ctx + 6 + 2 * unat (le_at ctx (fp_pos ctx + 4) 2 :: uint16_t)\<rparr>))"
proof -
  define len :: uint16_t where "len = le_at ctx (fp_pos ctx + 4) 2"
  have lm: "int (length (fp_data ctx)) + 4294967296 \<le> LONG_MAX"
    using fits by (simp add: moderate_size_def)
  have s1: "nbu_seek ctx 4 SEEK_CUR = Inr (ctx\<lparr>fp_pos := fp_pos ctx + 4\<rparr>)"
    using lm avail by (simp add: nbu_seek_cur_eq)
  have r: "nbu_read_uint16 (ctx\<lparr>fp_pos := fp_pos ctx + 4\<rparr>) =
      Inr (len, ctx\<lparr>fp_pos := fp_pos ctx + 6\<rparr>)"
    using avail by (simp add: nbu_read_uint16_eq len_def)
  show ?thesis
  proof (cases "len > 0xFFFF div 2")
    case True
    then show ?thesis
      unfolding nbu_read_memo_def s1 by (simp add: r len_def[symmetric])
  next
    case False
    note d = uint16_double[OF False]
    have t: "nbu_tell (ctx\<lparr>fp_pos := fp_pos ctx + 6\<rparr>) = Inr (int (fp_pos ctx + 6))"
      using lm avail by (simp add: nbu_tell_eq)
    have le: "unat len \<le> 32767" using False by (simp add: word_less_nat_alt)
    have le': "uint len \<le> 32767" using False by (simp add: word_less_def)
    have u: "uint (len * 2) = int (2 * unat len)"
      using d(2) by simp
    have "nbu_seek (ctx\<lparr>fp_pos := fp_pos ctx + 6\<rparr>) (int (2 * unat len)) SEEK_CUR =
        Inr (ctx\<lparr>fp_pos := fp_pos ctx + 6\<rparr>
              \<lparr>fp_pos := fp_pos (ctx\<lparr>fp_pos := fp_pos ctx + 6\<rparr>) + nat (int (2 * unat len))\<rparr>)"
    proof (rule nbu_seek_cur_eq)
      show "0 \<le> int (2 * unat len)" by simp
      show "int (fp_pos (ctx\<lparr>fp_pos := fp_pos ctx + 6\<rparr>)) + int (2 * unat len) \<le> LONG_MAX"
        using lm avail le' by simp
    qed
    then have s2: "nbu_seek (ctx\<lparr>fp_pos := fp_pos ctx + 6\<rparr>) (uint (len * 2)) SEEK_CUR =
        Inr (ctx\<lparr>fp_pos := fp_pos ctx + 6 + 2 * unat len\<rparr>)"
      unfolding u by (simp only: nat_int) simp
    show ?thesis
      unfolding nbu_read_memo_def s1 using False
      by (simp add: r t s2 Let_def nbu_add_item_def len_def[symmetric])
  qed
qed


lemma le_at_memos_update [simp]: "le_at (ctx\<lparr>memos := m\<rparr>) off n = le_at ctx off n"
  by (simp add: le_at_def)

lemma nbu_read_memos_section_eq:
  assumes fits: "moderate_size ctx" and avail: "fp_pos ctx + 4 \<le> length (fp_data ctx)"
    and sp: "uint section_pos + 48 \<le> LONG_MAX"
  shows "nbu_read_memos_section ctx section_pos =
     ebind (nbu_read_memos_loop (unat (le_at ctx (fp_pos ctx) 4 :: uint32_t))
              (ctx\<lparr>memos := Some [], fp_pos := unat section_pos + 48\<rparr>) [])
       (\<lambda>(list, ctx'). Inr (ctx'\<lparr>memos := Some list, fp_pos := fp_pos ctx + 8\<rparr>))"
proof -
  have lm: "int (length (fp_data ctx)) + 4294967296 \<le> LONG_MAX"
    using fits by (simp add: moderate_size_def)
  have r: "nbu_read_uint32 (ctx\<lparr>memos := Some []\<rparr>) =
      Inr (le_at ctx (fp_pos ctx) 4, ctx\<lparr>memos := Some [], fp_pos := fp_pos ctx + 4\<rparr>)"
    using avail by (simp add: nbu_read_uint32_eq)
  have t: "nbu_tell (ctx\<lparr>memos := Some [], fp_pos := fp_pos ctx + 4\<rparr>) = Inr (int (fp_pos ctx + 4))"
    using lm avail by (simp add: nbu_tell_eq)
  have "sint (section_pos + word_of_int 48) = uint section_pos + 48"
    using sp by (intro sint_add_small) simp_all
  then have sv: "sint (section_pos + 48) = uint section_pos + 48" by simp
  have s1: "nbu_seek (ctx\<lparr>memos := Some [], fp_pos := fp_pos ctx + 4\<rparr>) (sint (section_pos + 48)) SEEK_SET =
      Inr (ctx\<lparr>memos := Some [], fp_pos := unat section_pos + 48\<rparr>)"
    unfolding sv using sp by (simp add: nbu_seek_set_eq nat_add_distrib)
  have s2: "nbu_seek (c\<lparr>memos := Some l\<rparr>) (int (fp_pos ctx + 4) + 4) SEEK_SET =
      Inr (c\<lparr>memos := Some l, fp_pos := fp_pos ctx + 8\<rparr>)" for c l
  proof -
    have "nbu_seek (c\<lparr>memos := Some l\<rparr>) (int (fp_pos ctx + 8)) SEEK_SET =
        Inr (c\<lparr>memos := Some l\<rparr>\<lparr>fp_pos := nat (int (fp_pos ctx + 8))\<rparr>)"
      using lm avail by (intro nbu_seek_set_eq) simp_all
    then show ?thesis by (simp only: nat_int) (simp add: add.commute)
  qed
  show ?thesis
    unfolding nbu_read_memos_section_def r
    by (simp add: t s1 s2 del: of_nat_add)
qed


lemma memo_records_same_data:
  "fp_data a = fp_data b \<Longrightarrow> memo_records a n off = memo_records b n off"
  by (induction n arbitrary: off) (simp_all add: le_at_def)

lemma nbu_read_memo_short:
  assumes pos: "int (fp_pos ctx) + 4 \<le> LONG_MAX" and short: "length (fp_data ctx) < fp_pos ctx + 6"
  shows "nbu_read_memo ctx list = Inl Unexpected_end_of_file"
proof -
  have s1: "nbu_seek ctx 4 SEEK_CUR = Inr (ctx\<lparr>fp_pos := fp_pos ctx + 4\<rparr>)"
    using pos by (simp add: nbu_seek_cur_eq)
  have r: "nbu_read_uint16 (ctx\<lparr>fp_pos := fp_pos ctx + 4\<rparr>) = Inl Unexpected_end_of_file"
    using short by (simp add: nbu_read_uint16_eq)
  show ?thesis
    unfolding nbu_read_memo_def s1 by (simp add: r)
qed

lemma memo_item_len:
  fixes len :: uint16_t
  assumes ng: "\<not> len > 0xFFFF div 2"
  shows "(ucast (len * 2) :: uint32_t) = of_nat (2 * unat len)"
    and "unat (of_nat (2 * unat len) :: uint32_t) = 2 * unat len"
proof -
  have "(ucast (len * 2) :: uint32_t) = of_nat (unat (ucast (len * 2) :: uint32_t))"
    by simp
  then show "(ucast (len * 2) :: uint32_t) = of_nat (2 * unat len)"
    unfolding uint16_double(1)[OF ng] .
  then show "unat (of_nat (2 * unat len) :: uint32_t) = 2 * unat len"
    using uint16_double(1)[OF ng] by simp
qed

text \<open>The loop of the handler reads the records that the reference describes.\<close>

lemma nbu_read_memos_loop_records:
  assumes "moderate_size ctx" and "int (fp_pos ctx) + 4 \<le> LONG_MAX"
  shows "case memo_records ctx n (fp_pos ctx) of
           Inl e \<Rightarrow> nbu_read_memos_loop n ctx list = Inl e
         | Inr items \<Rightarrow> (\<exists>q. nbu_read_memos_loop n ctx list = Inr (list @ items, ctx\<lparr>fp_pos := q\<rparr>))"
  using assms
proof (induction n arbitrary: ctx list)
  case 0
  have "ctx = ctx\<lparr>fp_pos := fp_pos ctx\<rparr>" by simp
  then have "\<exists>q. ctx = ctx\<lparr>fp_pos := q\<rparr>" ..
  then show ?case by simp
next
  case (Suc n)
  let ?len = "le_at ctx (fp_pos ctx + 4) 2 :: uint16_t"
  show ?case
  proof (cases "length (fp_data ctx) < fp_pos ctx + 6")
    case True
    then show ?thesis
      using nbu_read_memo_short[OF Suc.prems(2) True] by simp
  next
    case False
    then have avail: "fp_pos ctx + 6 \<le> length (fp_data ctx)" by simp
    note eq = nbu_read_memo_eq[OF Suc.prems(1) avail, of list]
    show ?thesis
    proof (cases "?len > 0xFFFF div 2")
      case True
      then show ?thesis
        using False eq by simp
    next
      case small: False
      let ?p = "fp_pos ctx + 6 + 2 * unat ?len"
      let ?c = "ctx\<lparr>fp_pos := ?p\<rparr>"
      let ?item = "\<lparr>item_pos = int (fp_pos ctx + 6), item_len = of_nat (2 * unat ?len)\<rparr>"
      have body: "nbu_read_memo ctx list = Inr (list @ [?item], ?c)"
        using eq small memo_item_len(1)[OF small] by simp
      have m: "moderate_size ?c" using Suc.prems(1) by (simp add: moderate_size_def)
      from small have le': "uint ?len \<le> 32767" by (simp add: word_less_def)
      have p: "int (fp_pos ?c) + 4 \<le> LONG_MAX"
        using Suc.prems(1) avail le' by (simp add: moderate_size_def)
      have d: "memo_records ?c n ?p = memo_records ctx n ?p"
        by (rule memo_records_same_data) simp
      have step: "nbu_read_memos_loop (Suc n) ctx list = nbu_read_memos_loop n ?c (list @ [?item])"
        by (simp add: body)
      have ref: "memo_records ctx (Suc n) (fp_pos ctx) =
          ebind (memo_records ctx n ?p) (\<lambda>items. Inr (?item # items))"
        using False small by simp
      from Suc.IH[OF m p, of "list @ [?item]"]
      show ?thesis
        unfolding step ref using d
        by (cases "memo_records ctx n ?p") (auto simp del: nbu_read_memos_loop.simps)
    qed
  qed
qed

lemma nbu_read_memos_section_refines:
  assumes fits: "moderate_size ctx" and avail: "fp_pos ctx + 4 \<le> length (fp_data ctx)"
    and sp: "uint section_pos + 52 \<le> LONG_MAX"
  shows "nbu_read_memos_section ctx section_pos =
     ebind (memo_records ctx (unat (le_at ctx (fp_pos ctx) 4 :: uint32_t)) (unat section_pos + 48))
       (\<lambda>items. Inr (ctx\<lparr>memos := Some items, fp_pos := fp_pos ctx + 8\<rparr>))"
proof -
  let ?n = "unat (le_at ctx (fp_pos ctx) 4 :: uint32_t)"
  let ?c = "ctx\<lparr>memos := Some [], fp_pos := unat section_pos + 48\<rparr>"
  from sp have sp': "uint section_pos + 48 \<le> LONG_MAX" by simp
  note eq = nbu_read_memos_section_eq[OF fits avail sp']
  have m: "moderate_size ?c" using fits by (simp add: moderate_size_def)
  have p: "int (fp_pos ?c) + 4 \<le> LONG_MAX" using sp by simp
  have d: "memo_records ?c ?n (unat section_pos + 48) = memo_records ctx ?n (unat section_pos + 48)"
    by (rule memo_records_same_data) simp
  from nbu_read_memos_loop_records[OF m p, of ?n "[]"]
  show ?thesis
    unfolding eq using d
    by (cases "memo_records ctx ?n (unat section_pos + 48)") auto
qed

lemma length_memo_records: "memo_records ctx n off = Inr items \<Longrightarrow> length items = n"
proof (induction n arbitrary: off items)
  case 0
  then show ?case by simp
next
  case (Suc n)
  then show ?case
    by (auto simp: ebind_eq_Inr_iff Let_def split: if_splits)
qed

text \<open>
  Claim C8. In a file of moderate size, when the count of the memos section is readable
  and its anchor \<open>section_pos\<close> is not within 52 bytes of the largest \<open>long\<close>, the
  handler reads the records that \<open>memo_records\<close> describes, as many as the count says
  and from the absolute offset \<open>section_pos + 48\<close> on: each record is 4 bytes that are
  skipped and a 16-bit length in code units; the handler fails with ``Memo too large''
  at the first record whose length exceeds half of the largest 16-bit value, and with an
  end-of-file error at the first one whose length field is not in the file; otherwise it
  records, for each record, an item at the position after the length field whose byte
  length is twice the unit count, and the next record starts that many bytes further.
  On success there is one item for each record, and the stream is back 8 bytes after the
  section's table entry.
\<close>

theorem nbu_read_memos_section_records:
  "(moderate_size ctx \<and> fp_pos ctx + 4 \<le> length (fp_data ctx) \<and>
    uint section_pos + 52 \<le> LONG_MAX \<longrightarrow>
      nbu_read_memos_section ctx section_pos =
        ebind (memo_records ctx (unat (le_at ctx (fp_pos ctx) 4 :: uint32_t)) (unat section_pos + 48))
          (\<lambda>items. Inr (ctx\<lparr>memos := Some items, fp_pos := fp_pos ctx + 8\<rparr>))) \<and>
   (memo_records ctx n off = Inr items \<longrightarrow> length items = n) \<and>
   (\<not> (le_at ctx (off + 4) 2 :: uint16_t) > 0xFFFF div 2 \<longrightarrow>
      unat (of_nat (2 * unat (le_at ctx (off + 4) 2 :: uint16_t)) :: uint32_t) =
        2 * unat (le_at ctx (off + 4) 2 :: uint16_t))"
  using nbu_read_memos_section_refines[of ctx section_pos] length_memo_records[of ctx n off items]
    memo_item_len(2)[of "le_at ctx (off + 4) 2"]
  by blast

theorem nbu_read_memos_section_records_witness:
  "moderate_size (nbu_ctx_calloc two_memos_file) \<and>
   fp_pos (nbu_ctx_calloc two_memos_file) + 4 \<le> length (fp_data (nbu_ctx_calloc two_memos_file)) \<and>
   uint (0 :: uint64_t) + 52 \<le> LONG_MAX \<and>
   memo_records (nbu_ctx_calloc two_memos_file) 2 48 =
     Inr [\<lparr>item_pos = 54, item_len = 4\<rparr>, \<lparr>item_pos = 64, item_len = 2\<rparr>] \<and>
   nbu_read_memos_section (nbu_ctx_calloc two_memos_file) 0 =
     Inr ((nbu_ctx_calloc two_memos_file)
            \<lparr>memos := Some [\<lparr>item_pos = 54, item_len = 4\<rparr>, \<lparr>item_pos = 64, item_len = 2\<rparr>],
             fp_pos := 8\<rparr>) \<and>
   length [\<lparr>item_pos = 54, item_len = 4 :: uint32_t\<rparr>, \<lparr>item_pos = 64, item_len = 2\<rparr>] = 2 \<and>
   (le_at (nbu_ctx_calloc two_memos_file) (48 + 4) 2 :: uint16_t) = 2 \<and>
   unat (of_nat (2 * unat (2 :: uint16_t)) :: uint32_t) = 2 * unat (2 :: uint16_t) \<and>
   moderate_size (nbu_ctx_calloc large_memo_file) \<and>
   (le_at (nbu_ctx_calloc large_memo_file) (48 + 4) 2 :: uint16_t) = 0x8000 \<and>
   nbu_read_memos_section (nbu_ctx_calloc large_memo_file) 0 = Inl Memo_too_large"
proof -
  let ?c = "nbu_ctx_calloc two_memos_file"
  let ?d = "nbu_ctx_calloc large_memo_file"
  let ?items = "[\<lparr>item_pos = 54, item_len = 4 :: uint32_t\<rparr>, \<lparr>item_pos = 64, item_len = 2\<rparr>]"
  have hc: "moderate_size ?c \<and> fp_pos ?c + 4 \<le> length (fp_data ?c) \<and>
      uint (0 :: uint64_t) + 52 \<le> LONG_MAX"
    by (simp add: moderate_size_def nbu_ctx_calloc_def two_memos_file_def LONG_MAX_def)
  have hd: "moderate_size ?d \<and> fp_pos ?d + 4 \<le> length (fp_data ?d) \<and>
      uint (0 :: uint64_t) + 52 \<le> LONG_MAX"
    by (simp add: moderate_size_def nbu_ctx_calloc_def large_memo_file_def LONG_MAX_def)
  have nc: "unat (le_at ?c (fp_pos ?c) 4 :: uint32_t) = 2"
    by code_simp
  have nd: "unat (le_at ?d (fp_pos ?d) 4 :: uint32_t) = 1"
    by code_simp
  have rc: "memo_records ?c 2 48 = Inr ?items"
    by code_simp
  have rd: "memo_records ?d 1 48 = Inl Memo_too_large"
    by code_simp
  have lc: "(le_at ?c (48 + 4) 2 :: uint16_t) = 2"
    by code_simp
  have ld: "(le_at ?d (48 + 4) 2 :: uint16_t) = 0x8000"
    by code_simp
  have sm: "\<not> (le_at ?c (48 + 4) 2 :: uint16_t) > 0xFFFF div 2"
    unfolding lc by simp
  note t1 = nbu_read_memos_section_records[where ctx = ?c and section_pos = 0,
      THEN conjunct1, THEN mp, OF hc, unfolded nc]
  note t2 = nbu_read_memos_section_records[where ctx = ?c and n = 2 and off = 48,
      THEN conjunct2, THEN conjunct1, THEN mp, OF rc]
  note t3 = nbu_read_memos_section_records[where ctx = ?d and section_pos = 0,
      THEN conjunct1, THEN mp, OF hd, unfolded nd]
  note t4 = nbu_read_memos_section_records[where ctx = ?c and off = 48,
      THEN conjunct2, THEN conjunct2, THEN mp, OF sm, unfolded lc]
  have a: "nbu_read_memos_section ?c 0 = Inr (?c\<lparr>memos := Some ?items, fp_pos := 8\<rparr>)"
    using t1 rc by (simp add: nbu_ctx_calloc_def)
  have b: "nbu_read_memos_section ?d 0 = Inl Memo_too_large"
    using t3 rd by simp
  from hc hd rc a t2 lc t4 ld b show ?thesis
    by (intro conjI) (simp_all only:)
qed

section \<open>The calendar and contacts sections\<close>

lemma nbu_read_vcard_io_error: "nbu_read_vcard ctx list = Inl e \<Longrightarrow> is_io_error e"
  unfolding nbu_read_vcard_def
  by (auto simp: ebind_eq_Inl_iff Let_def split: if_splits
      dest: nbu_read_uint32_io_error nbu_seek_io_error nbu_tell_io_error)

lemma nbu_read_vcards_loop_io_error:
  "nbu_read_vcards_loop n ctx list = Inl e \<Longrightarrow> is_io_error e"
proof (induction n arbitrary: ctx list)
  case 0
  then show ?case by simp
next
  case (Suc n)
  then show ?case
    by (auto simp: ebind_eq_Inl_iff dest: nbu_read_vcard_io_error)
qed

lemma nbu_read_vcards_io_error: "nbu_read_vcards ctx list = Inl e \<Longrightarrow> is_io_error e"
  unfolding nbu_read_vcards_def
  by (auto simp: ebind_eq_Inl_iff dest: nbu_read_uint32_io_error nbu_read_vcards_loop_io_error)

lemma nbu_read_vcard_section_folders:
  assumes avail: "fp_pos ctx + 8 \<le> length (fp_data ctx)"
  shows "nbu_read_vcard_section ctx section_pos = Inl Section_unexpectedly_contains_folders \<longleftrightarrow>
         (le_at ctx (fp_pos ctx + 4) 4 :: uint32_t) \<noteq> 0"
proof -
  let ?nf = "le_at ctx (fp_pos ctx + 4) 4 :: uint32_t"
  let ?c2 = "ctx\<lparr>fp_pos := fp_pos ctx + 8\<rparr>"
  define rest where "rest =
         ebind (nbu_tell ?c2) (\<lambda>pos.
         ebind (nbu_seek ?c2 (sint (section_pos + 44)) SEEK_SET) (\<lambda>ctx3.
         ebind (nbu_read_vcards ctx3 []) (\<lambda>(list, ctx4).
         ebind (nbu_seek ctx4 pos SEEK_SET) (\<lambda>ctx5.
           Inr (list, ctx5)))))"
  have eq: "nbu_read_vcard_section ctx section_pos =
      (if ?nf \<noteq> 0 then Inl Section_unexpectedly_contains_folders else rest)"
    using avail unfolding nbu_read_vcard_section_def rest_def
    by (simp add: nbu_read_uint32_eq add.assoc)
  have "is_io_error e" if "rest = Inl e" for e
    using that unfolding rest_def
    by (auto simp: ebind_eq_Inl_iff
        dest: nbu_tell_io_error nbu_seek_io_error nbu_read_vcards_io_error)
  then have "rest \<noteq> Inl Section_unexpectedly_contains_folders"
    by (auto simp: is_io_error_def)
  then show ?thesis unfolding eq by simp
qed

lemma nbu_read_vcard_eq_checked:
  assumes fits: "moderate_size ctx"
    and t1: "(le_at ctx (fp_pos ctx) 4 :: uint32_t) = 0x10"
    and avail: "fp_pos ctx + 12 \<le> length (fp_data ctx)"
  shows "nbu_read_vcard ctx list =
     Inr (list @ [\<lparr>item_pos = int (fp_pos ctx + 12), item_len = le_at ctx (fp_pos ctx + 8) 4\<rparr>],
          ctx\<lparr>fp_pos := fp_pos ctx + 12 + unat (le_at ctx (fp_pos ctx + 8) 4 :: uint32_t)\<rparr>)"
proof -
  define len :: uint32_t where "len = le_at ctx (fp_pos ctx + 8) 4"
  have lm: "int (length (fp_data ctx)) + 4294967296 \<le> LONG_MAX"
    using fits by (simp add: moderate_size_def)
  have ul: "uint len < 4294967296"
    using uint_lt2p[of len] by simp
  have r1: "nbu_read_uint32 ctx = Inr (0x10, ctx\<lparr>fp_pos := fp_pos ctx + 4\<rparr>)"
    using avail t1 by (simp add: nbu_read_uint32_eq)
  have r2: "nbu_read_uint32 (ctx\<lparr>fp_pos := fp_pos ctx + 4\<rparr>) =
      Inr (le_at ctx (fp_pos ctx + 4) 4, ctx\<lparr>fp_pos := fp_pos ctx + 8\<rparr>)"
    using avail by (simp add: nbu_read_uint32_eq)
  have r3: "nbu_read_uint32 (ctx\<lparr>fp_pos := fp_pos ctx + 8\<rparr>) =
      Inr (len, ctx\<lparr>fp_pos := fp_pos ctx + 12\<rparr>)"
    using avail by (simp add: nbu_read_uint32_eq len_def)
  have t: "nbu_tell (ctx\<lparr>fp_pos := fp_pos ctx + 12\<rparr>) = Inr (int (fp_pos ctx + 12))"
    using lm avail by (simp add: nbu_tell_eq)
  have "nbu_seek (ctx\<lparr>fp_pos := fp_pos ctx + 12\<rparr>) (uint len) SEEK_CUR =
      Inr (ctx\<lparr>fp_pos := fp_pos ctx + 12\<rparr>
            \<lparr>fp_pos := fp_pos (ctx\<lparr>fp_pos := fp_pos ctx + 12\<rparr>) + nat (uint len)\<rparr>)"
    using lm avail ul by (intro nbu_seek_cur_eq) simp_all
  then have s: "nbu_seek (ctx\<lparr>fp_pos := fp_pos ctx + 12\<rparr>) (uint len) SEEK_CUR =
      Inr (ctx\<lparr>fp_pos := fp_pos ctx + 12 + unat len\<rparr>)"
    by simp
  show ?thesis
    unfolding nbu_read_vcard_def r1
    by (simp add: r2 r3 t s Let_def nbu_add_item_def len_def[symmetric])
qed

lemma nbu_read_vcard_eq_unchecked:
  assumes fits: "moderate_size ctx"
    and t1: "(le_at ctx (fp_pos ctx) 4 :: uint32_t) \<noteq> 0x10"
    and avail: "fp_pos ctx + 8 \<le> length (fp_data ctx)"
  shows "nbu_read_vcard ctx list =
     Inr (list @ [\<lparr>item_pos = int (fp_pos ctx + 8), item_len = le_at ctx (fp_pos ctx + 4) 4\<rparr>],
          ctx\<lparr>fp_pos := fp_pos ctx + 8 + unat (le_at ctx (fp_pos ctx + 4) 4 :: uint32_t)\<rparr>)"
proof -
  define len :: uint32_t where "len = le_at ctx (fp_pos ctx + 4) 4"
  have lm: "int (length (fp_data ctx)) + 4294967296 \<le> LONG_MAX"
    using fits by (simp add: moderate_size_def)
  have ul: "uint len < 4294967296"
    using uint_lt2p[of len] by simp
  have r1: "nbu_read_uint32 ctx = Inr (le_at ctx (fp_pos ctx) 4, ctx\<lparr>fp_pos := fp_pos ctx + 4\<rparr>)"
    using avail by (simp add: nbu_read_uint32_eq)
  have r3: "nbu_read_uint32 (ctx\<lparr>fp_pos := fp_pos ctx + 4\<rparr>) =
      Inr (len, ctx\<lparr>fp_pos := fp_pos ctx + 8\<rparr>)"
    using avail by (simp add: nbu_read_uint32_eq len_def)
  have t: "nbu_tell (ctx\<lparr>fp_pos := fp_pos ctx + 8\<rparr>) = Inr (int (fp_pos ctx + 8))"
    using lm avail by (simp add: nbu_tell_eq)
  have "nbu_seek (ctx\<lparr>fp_pos := fp_pos ctx + 8\<rparr>) (uint len) SEEK_CUR =
      Inr (ctx\<lparr>fp_pos := fp_pos ctx + 8\<rparr>
            \<lparr>fp_pos := fp_pos (ctx\<lparr>fp_pos := fp_pos ctx + 8\<rparr>) + nat (uint len)\<rparr>)"
    using lm avail ul by (intro nbu_seek_cur_eq) simp_all
  then have s: "nbu_seek (ctx\<lparr>fp_pos := fp_pos ctx + 8\<rparr>) (uint len) SEEK_CUR =
      Inr (ctx\<lparr>fp_pos := fp_pos ctx + 8 + unat len\<rparr>)"
    by simp
  show ?thesis
    unfolding nbu_read_vcard_def r1 using t1
    by (simp add: r3 t s Let_def nbu_add_item_def len_def[symmetric])
qed


lemma ebind_setter_Inl_iff:
  "ebind m (\<lambda>(list, ctx'). Inr (f list ctx')) = Inl e \<longleftrightarrow> m = Inl e"
  by (cases m) (auto split: prod.splits)

lemma vcard_records_same_data:
  "fp_data a = fp_data b \<Longrightarrow> vcard_records a n off = vcard_records b n off"
  by (induction n arbitrary: off) (simp_all add: le_at_def Let_def)

lemma nbu_read_vcard_short:
  assumes "length (fp_data ctx) < fp_pos ctx + 4 \<or>
    length (fp_data ctx) <
      (if (le_at ctx (fp_pos ctx) 4 :: uint32_t) = 0x10 then fp_pos ctx + 8 else fp_pos ctx + 4) + 4"
  shows "nbu_read_vcard ctx list = Inl Unexpected_end_of_file"
proof (cases "length (fp_data ctx) < fp_pos ctx + 4")
  case True
  then show ?thesis
    by (simp add: nbu_read_vcard_def nbu_read_uint32_eq)
next
  case False
  then have r1: "nbu_read_uint32 ctx =
      Inr (le_at ctx (fp_pos ctx) 4, ctx\<lparr>fp_pos := fp_pos ctx + 4\<rparr>)"
    by (simp add: nbu_read_uint32_eq)
  show ?thesis
  proof (cases "(le_at ctx (fp_pos ctx) 4 :: uint32_t) = 0x10")
    case True
    with assms False have short: "length (fp_data ctx) < fp_pos ctx + 12" by simp
    show ?thesis
      unfolding nbu_read_vcard_def r1 using True short
      by (simp add: nbu_read_uint32_eq)
  next
    case ne: False
    with assms False have short: "length (fp_data ctx) < fp_pos ctx + 8" by simp
    show ?thesis
      unfolding nbu_read_vcard_def r1 using ne short
      by (simp add: nbu_read_uint32_eq)
  qed
qed

text \<open>The loop of \<open>nbu_read_vcards\<close> reads the records that the reference describes.\<close>

lemma nbu_read_vcards_loop_records:
  assumes "moderate_size ctx"
  shows "case vcard_records ctx n (fp_pos ctx) of
           Inl e \<Rightarrow> nbu_read_vcards_loop n ctx list = Inl e
         | Inr items \<Rightarrow> (\<exists>q. nbu_read_vcards_loop n ctx list = Inr (list @ items, ctx\<lparr>fp_pos := q\<rparr>))"
  using assms
proof (induction n arbitrary: ctx list)
  case 0
  have "ctx = ctx\<lparr>fp_pos := fp_pos ctx\<rparr>" by simp
  then have "\<exists>q. ctx = ctx\<lparr>fp_pos := q\<rparr>" ..
  then show ?case by simp
next
  case (Suc n)
  let ?test = "le_at ctx (fp_pos ctx) 4 :: uint32_t"
  let ?lo = "if ?test = 0x10 then fp_pos ctx + 8 else fp_pos ctx + 4"
  show ?case
  proof (cases "length (fp_data ctx) < fp_pos ctx + 4 \<or> length (fp_data ctx) < ?lo + 4")
    case True
    have "vcard_records ctx (Suc n) (fp_pos ctx) = Inl Unexpected_end_of_file"
      using True by (auto simp: Let_def)
    then show ?thesis
      using nbu_read_vcard_short[OF True] by simp
  next
    case False
    let ?len = "le_at ctx ?lo 4 :: uint32_t"
    let ?p = "?lo + 4 + unat ?len"
    let ?c = "ctx\<lparr>fp_pos := ?p\<rparr>"
    let ?item = "\<lparr>item_pos = int (?lo + 4), item_len = ?len\<rparr>"
    have body: "nbu_read_vcard ctx list = Inr (list @ [?item], ?c)"
    proof (cases "?test = 0x10")
      case True
      with False have "fp_pos ctx + 12 \<le> length (fp_data ctx)" by simp
      from nbu_read_vcard_eq_checked[OF Suc.prems True this, of list] True
      show ?thesis by (simp add: add.assoc)
    next
      case ne: False
      with False have "fp_pos ctx + 8 \<le> length (fp_data ctx)" by simp
      from nbu_read_vcard_eq_unchecked[OF Suc.prems ne this, of list] ne
      show ?thesis by (simp add: add.assoc)
    qed
    have m: "moderate_size ?c" using Suc.prems by (simp add: moderate_size_def)
    have d: "vcard_records ?c n ?p = vcard_records ctx n ?p"
      by (rule vcard_records_same_data) simp
    have step: "nbu_read_vcards_loop (Suc n) ctx list = nbu_read_vcards_loop n ?c (list @ [?item])"
      by (simp add: body)
    have ref: "vcard_records ctx (Suc n) (fp_pos ctx) =
        ebind (vcard_records ctx n ?p) (\<lambda>items. Inr (?item # items))"
      using False by (simp add: Let_def)
    from Suc.IH[OF m, of "list @ [?item]"]
    show ?thesis
      unfolding step ref using d
      by (cases "vcard_records ctx n ?p") (auto simp del: nbu_read_vcards_loop.simps)
  qed
qed

lemma nbu_read_vcard_section_refines:
  assumes fits: "moderate_size ctx" and avail: "fp_pos ctx + 8 \<le> length (fp_data ctx)"
    and nf: "(le_at ctx (fp_pos ctx + 4) 4 :: uint32_t) = 0"
    and sp: "unat section_pos + 48 \<le> length (fp_data ctx)"
  shows "nbu_read_vcard_section ctx section_pos =
     ebind (vcard_records ctx (unat (le_at ctx (unat section_pos + 44) 4 :: uint32_t))
              (unat section_pos + 48))
       (\<lambda>items. Inr (items, ctx\<lparr>fp_pos := fp_pos ctx + 8\<rparr>))"
proof -
  let ?n = "unat (le_at ctx (unat section_pos + 44) 4 :: uint32_t)"
  let ?c2 = "ctx\<lparr>fp_pos := fp_pos ctx + 8\<rparr>"
  let ?c3 = "ctx\<lparr>fp_pos := unat section_pos + 44\<rparr>"
  let ?c4 = "ctx\<lparr>fp_pos := unat section_pos + 48\<rparr>"
  have lm: "int (length (fp_data ctx)) + 4294967296 \<le> LONG_MAX"
    using fits by (simp add: moderate_size_def)
  have r1: "nbu_read_uint32 ctx = Inr (le_at ctx (fp_pos ctx) 4, ctx\<lparr>fp_pos := fp_pos ctx + 4\<rparr>)"
    using avail by (simp add: nbu_read_uint32_eq)
  have r2: "nbu_read_uint32 (ctx\<lparr>fp_pos := fp_pos ctx + 4\<rparr>) = Inr (0, ?c2)"
    using avail nf by (simp add: nbu_read_uint32_eq)
  have t: "nbu_tell ?c2 = Inr (int (fp_pos ctx + 8))"
    using lm avail by (simp add: nbu_tell_eq)
  have "nat (uint section_pos) + 48 \<le> length (fp_data ctx)"
    using sp by (simp only: unat_eq_nat_uint)
  then have us: "uint section_pos + 44 \<le> LONG_MAX"
    using lm by linarith
  have "sint (section_pos + word_of_int 44) = uint section_pos + 44"
    using us by (intro sint_add_small) simp_all
  then have sv: "sint (section_pos + 44) = uint section_pos + 44" by simp
  have s1: "nbu_seek ?c2 (sint (section_pos + 44)) SEEK_SET = Inr ?c3"
    unfolding sv using us by (simp add: nbu_seek_set_eq nat_add_distrib)
  have r3: "nbu_read_uint32 ?c3 = Inr (le_at ctx (unat section_pos + 44) 4, ?c4)"
    using sp by (simp add: nbu_read_uint32_eq)
  have s2: "nbu_seek (ctx\<lparr>fp_pos := q\<rparr>) (int (fp_pos ctx + 8)) SEEK_SET = Inr ?c2" for q
  proof -
    have "nbu_seek (ctx\<lparr>fp_pos := q\<rparr>) (int (fp_pos ctx + 8)) SEEK_SET =
        Inr (ctx\<lparr>fp_pos := q\<rparr>\<lparr>fp_pos := nat (int (fp_pos ctx + 8))\<rparr>)"
      using lm avail by (intro nbu_seek_set_eq) simp_all
    then show ?thesis by (simp only: nat_int) simp
  qed
  have m: "moderate_size ?c4" using fits by (simp add: moderate_size_def)
  have d: "vcard_records ?c4 ?n (unat section_pos + 48) = vcard_records ctx ?n (unat section_pos + 48)"
    by (rule vcard_records_same_data) simp
  have head: "nbu_read_vcard_section ctx section_pos =
      ebind (nbu_read_vcards_loop ?n ?c4 []) (\<lambda>(list, ctx4).
        ebind (nbu_seek ctx4 (int (fp_pos ctx + 8)) SEEK_SET) (\<lambda>ctx5. Inr (list, ctx5)))"
    unfolding nbu_read_vcard_section_def nbu_read_vcards_def r1
    by (simp add: r2 t s1 r3 del: of_nat_add)
  from nbu_read_vcards_loop_records[OF m, of ?n "[]"]
  show ?thesis
    unfolding head using d
    by (cases "vcard_records ctx ?n (unat section_pos + 48)") (auto simp: s2 simp del: of_nat_add)
qed

lemma vcard_records_error:
  "vcard_records ctx n off = Inl e \<Longrightarrow> e = Unexpected_end_of_file"
proof (induction n arbitrary: off)
  case 0
  then show ?case by simp
next
  case (Suc n)
  then show ?case
    by (auto simp: ebind_eq_Inl_iff Let_def split: if_splits)
qed

lemma length_vcard_records: "vcard_records ctx n off = Inr items \<Longrightarrow> length items = n"
proof (induction n arbitrary: off items)
  case 0
  then show ?case by simp
next
  case (Suc n)
  then show ?case
    by (auto simp: ebind_eq_Inr_iff Let_def split: if_splits)
qed

lemma ebind_ebind_Inr:
  "ebind (ebind m (\<lambda>x. Inr (f x))) g = ebind m (\<lambda>x. g (f x))"
  by (cases m) simp_all

text \<open>
  Claim C7. When the two counts of a calendar or contacts section are readable, the
  handler fails with ``Section unexpectedly contains folders'' exactly when the 32-bit
  folder count is not zero. When that count is zero (file of moderate size, item count
  at \<open>section_pos + 44\<close> in the file), the handler reads the records that
  \<open>vcard_records\<close> describes, as many as the item count says and from the offset
  \<open>section_pos + 48\<close> on: in each record the second validation word is there only
  when the first is \<open>0x10\<close>, its value is not looked at, and the length and the item
  follow. The only failure of the loop over the items is the end of the file: no value
  of a validation word is fatal. On success there is one item for each record, and the
  stream is back 8 bytes after the section's table entry.
\<close>

theorem nbu_read_vcard_section_checks:
  "(fp_pos ctx + 8 \<le> length (fp_data ctx) \<longrightarrow>
      (nbu_read_calendar_section ctx section_pos = Inl Section_unexpectedly_contains_folders \<longleftrightarrow>
         (le_at ctx (fp_pos ctx + 4) 4 :: uint32_t) \<noteq> 0) \<and>
      (nbu_read_contacts_section ctx section_pos = Inl Section_unexpectedly_contains_folders \<longleftrightarrow>
         (le_at ctx (fp_pos ctx + 4) 4 :: uint32_t) \<noteq> 0)) \<and>
   (moderate_size ctx \<and> fp_pos ctx + 8 \<le> length (fp_data ctx) \<and>
    (le_at ctx (fp_pos ctx + 4) 4 :: uint32_t) = 0 \<and>
    unat section_pos + 48 \<le> length (fp_data ctx) \<longrightarrow>
      nbu_read_calendar_section ctx section_pos =
        ebind (vcard_records ctx (unat (le_at ctx (unat section_pos + 44) 4 :: uint32_t))
                 (unat section_pos + 48))
          (\<lambda>items. Inr (ctx\<lparr>calendar := Some items, fp_pos := fp_pos ctx + 8\<rparr>)) \<and>
      nbu_read_contacts_section ctx section_pos =
        ebind (vcard_records ctx (unat (le_at ctx (unat section_pos + 44) 4 :: uint32_t))
                 (unat section_pos + 48))
          (\<lambda>items. Inr (ctx\<lparr>contacts := Some items, fp_pos := fp_pos ctx + 8\<rparr>))) \<and>
   (vcard_records ctx n off = Inl e \<longrightarrow> e = Unexpected_end_of_file) \<and>
   (vcard_records ctx n off = Inr items \<longrightarrow> length items = n)"
proof (intro conjI impI)
  assume avail: "fp_pos ctx + 8 \<le> length (fp_data ctx)"
  show "nbu_read_calendar_section ctx section_pos = Inl Section_unexpectedly_contains_folders \<longleftrightarrow>
           (le_at ctx (fp_pos ctx + 4) 4 :: uint32_t) \<noteq> 0"
    unfolding nbu_read_calendar_section_def ebind_setter_Inl_iff
    by (rule nbu_read_vcard_section_folders[OF avail])
  show "nbu_read_contacts_section ctx section_pos = Inl Section_unexpectedly_contains_folders \<longleftrightarrow>
           (le_at ctx (fp_pos ctx + 4) 4 :: uint32_t) \<noteq> 0"
    unfolding nbu_read_contacts_section_def ebind_setter_Inl_iff
    by (rule nbu_read_vcard_section_folders[OF avail])
next
  assume h: "moderate_size ctx \<and> fp_pos ctx + 8 \<le> length (fp_data ctx) \<and>
    (le_at ctx (fp_pos ctx + 4) 4 :: uint32_t) = 0 \<and>
    unat section_pos + 48 \<le> length (fp_data ctx)"
  then have eq: "nbu_read_vcard_section ctx section_pos =
     ebind (vcard_records ctx (unat (le_at ctx (unat section_pos + 44) 4 :: uint32_t))
              (unat section_pos + 48))
       (\<lambda>items. Inr (items, ctx\<lparr>fp_pos := fp_pos ctx + 8\<rparr>))"
    using nbu_read_vcard_section_refines[of ctx section_pos] by blast
  have sw1: "c\<lparr>fp_pos := a, calendar := b\<rparr> = c\<lparr>calendar := b, fp_pos := a\<rparr>"
    for c :: nbu_ctx and a b
    by simp
  have sw2: "c\<lparr>fp_pos := a, contacts := b\<rparr> = c\<lparr>contacts := b, fp_pos := a\<rparr>"
    for c :: nbu_ctx and a b
    by simp
  show "nbu_read_calendar_section ctx section_pos =
        ebind (vcard_records ctx (unat (le_at ctx (unat section_pos + 44) 4 :: uint32_t))
                 (unat section_pos + 48))
          (\<lambda>items. Inr (ctx\<lparr>calendar := Some items, fp_pos := fp_pos ctx + 8\<rparr>))"
    unfolding nbu_read_calendar_section_def eq ebind_ebind_Inr by (simp add: sw1)
  show "nbu_read_contacts_section ctx section_pos =
        ebind (vcard_records ctx (unat (le_at ctx (unat section_pos + 44) 4 :: uint32_t))
                 (unat section_pos + 48))
          (\<lambda>items. Inr (ctx\<lparr>contacts := Some items, fp_pos := fp_pos ctx + 8\<rparr>))"
    unfolding nbu_read_contacts_section_def eq ebind_ebind_Inr by (simp add: sw2)
next
  assume "vcard_records ctx n off = Inl e"
  then show "e = Unexpected_end_of_file" by (rule vcard_records_error)
next
  assume "vcard_records ctx n off = Inr items"
  then show "length items = n" by (rule length_vcard_records)
qed

theorem nbu_read_vcard_section_checks_witness:
  "fp_pos (nbu_ctx_calloc [0, 0, 0, 0, 1, 0, 0, 0]) + 8 \<le>
     length (fp_data (nbu_ctx_calloc [0, 0, 0, 0, 1, 0, 0, 0])) \<and>
   nbu_read_calendar_section (nbu_ctx_calloc [0, 0, 0, 0, 1, 0, 0, 0]) 0 =
     Inl Section_unexpectedly_contains_folders \<and>
   nbu_read_contacts_section (nbu_ctx_calloc [0, 0, 0, 0, 1, 0, 0, 0]) 0 =
     Inl Section_unexpectedly_contains_folders \<and>
   moderate_size (nbu_ctx_calloc vcard_section_file) \<and>
   (le_at (nbu_ctx_calloc vcard_section_file) (fp_pos (nbu_ctx_calloc vcard_section_file) + 4) 4
      :: uint32_t) = 0 \<and>
   unat (0 :: uint64_t) + 48 \<le> length (fp_data (nbu_ctx_calloc vcard_section_file)) \<and>
   vcard_records (nbu_ctx_calloc vcard_section_file) 2 48 =
     Inr [\<lparr>item_pos = 56, item_len = 2\<rparr>, \<lparr>item_pos = 70, item_len = 1\<rparr>] \<and>
   nbu_read_calendar_section (nbu_ctx_calloc vcard_section_file) 0 =
     Inr ((nbu_ctx_calloc vcard_section_file)
            \<lparr>calendar := Some [\<lparr>item_pos = 56, item_len = 2\<rparr>, \<lparr>item_pos = 70, item_len = 1\<rparr>],
             fp_pos := 8\<rparr>) \<and>
   nbu_read_contacts_section (nbu_ctx_calloc vcard_section_file) 0 =
     Inr ((nbu_ctx_calloc vcard_section_file)
            \<lparr>contacts := Some [\<lparr>item_pos = 56, item_len = 2\<rparr>, \<lparr>item_pos = 70, item_len = 1\<rparr>],
             fp_pos := 8\<rparr>) \<and>
   length [\<lparr>item_pos = 56, item_len = 2 :: uint32_t\<rparr>, \<lparr>item_pos = 70, item_len = 1\<rparr>] = 2 \<and>
   vcard_records (nbu_ctx_calloc vcard_section_file) 3 48 = Inl Unexpected_end_of_file"
proof -
  let ?a = "nbu_ctx_calloc [0, 0, 0, 0, 1, 0, 0, 0]"
  let ?c = "nbu_ctx_calloc vcard_section_file"
  let ?items = "[\<lparr>item_pos = 56, item_len = 2 :: uint32_t\<rparr>, \<lparr>item_pos = 70, item_len = 1\<rparr>]"
  have a: "fp_pos ?a + 8 \<le> length (fp_data ?a)"
    by (simp add: nbu_ctx_calloc_def)
  have nf: "(le_at ?a (fp_pos ?a + 4) 4 :: uint32_t) = 1"
    by code_simp
  have z: "(le_at ?c (fp_pos ?c + 4) 4 :: uint32_t) = 0"
    by code_simp
  have hc: "moderate_size ?c \<and> fp_pos ?c + 8 \<le> length (fp_data ?c) \<and>
    (le_at ?c (fp_pos ?c + 4) 4 :: uint32_t) = 0 \<and>
    unat (0 :: uint64_t) + 48 \<le> length (fp_data ?c)"
    using z by (simp add: moderate_size_def nbu_ctx_calloc_def vcard_section_file_def LONG_MAX_def)
  have n: "unat (le_at ?c (unat (0 :: uint64_t) + 44) 4 :: uint32_t) = 2"
    by code_simp
  have r: "vcard_records ?c 2 (unat (0 :: uint64_t) + 48) = Inr ?items"
    by code_simp
  have r': "vcard_records ?c 2 48 = Inr ?items"
    by code_simp
  have "isl (vcard_records ?c 3 48)"
    by code_simp
  then obtain e where x: "vcard_records ?c 3 48 = Inl e"
    by (cases "vcard_records ?c 3 48") auto
  note ta = nbu_read_vcard_section_checks[where ctx = ?a and section_pos = 0,
      THEN conjunct1, THEN mp, OF a, unfolded nf]
  note tc = nbu_read_vcard_section_checks[where ctx = ?c and section_pos = 0,
      THEN conjunct2, THEN conjunct1, THEN mp, OF hc, unfolded n r]
  note te = nbu_read_vcard_section_checks[where ctx = ?c and n = 3 and off = 48,
      THEN conjunct2, THEN conjunct2, THEN conjunct1, THEN mp, OF x]
  note tl = nbu_read_vcard_section_checks[where ctx = ?c and n = 2 and off = 48,
      THEN conjunct2, THEN conjunct2, THEN conjunct2, THEN mp, OF r']
  have fa: "nbu_read_calendar_section ?a 0 = Inl Section_unexpectedly_contains_folders"
    "nbu_read_contacts_section ?a 0 = Inl Section_unexpectedly_contains_folders"
    using ta by simp_all
  have fc: "nbu_read_calendar_section ?c 0 = Inr (?c\<lparr>calendar := Some ?items, fp_pos := 8\<rparr>)"
    "nbu_read_contacts_section ?c 0 = Inr (?c\<lparr>contacts := Some ?items, fp_pos := 8\<rparr>)"
    using tc by (simp_all add: nbu_ctx_calloc_def)
  have fe: "vcard_records ?c 3 48 = Inl Unexpected_end_of_file"
    using x te by simp
  from a fa hc r' fc tl fe show ?thesis
    by (intro conjI) (simp_all only:)
qed

section \<open>What a successful parse leaves behind\<close>

lemma stream_moved_refl [simp]: "stream_moved ctx ctx"
  unfolding stream_moved_def by (rule exI[of _ "fp_pos ctx"]) simp

lemma stream_moved_update [simp]: "stream_moved ctx (ctx\<lparr>fp_pos := p\<rparr>)"
  unfolding stream_moved_def by blast

lemma stream_moved_trans:
  "stream_moved a b \<Longrightarrow> stream_moved b c \<Longrightarrow> stream_moved a c"
  unfolding stream_moved_def by auto

lemma stream_moved_data: "stream_moved a b \<Longrightarrow> fp_data b = fp_data a"
  unfolding stream_moved_def by clarsimp

lemma stream_moved_items: "stream_moved a b \<Longrightarrow> nbu_ctx_items b = nbu_ctx_items a"
  unfolding stream_moved_def nbu_ctx_items_def by clarsimp

lemma item_in_file_moved: "stream_moved a b \<Longrightarrow> item_in_file b = item_in_file a"
  unfolding stream_moved_def by (clarsimp simp: item_in_file_def fun_eq_iff)


lemma nbu_read_Inr:
  assumes "nbu_read ctx n = Inr (bs, ctx')"
  shows "ctx' = ctx\<lparr>fp_pos := fp_pos ctx + n\<rparr>" and "fp_pos ctx + n \<le> length (fp_data ctx)"
  using assms by (auto simp: nbu_read_def split: if_splits)

lemma nbu_tell_Inr: "nbu_tell ctx = Inr pos \<Longrightarrow> pos = int (fp_pos ctx)"
  by (auto simp: nbu_tell_def split: if_splits)

lemma nbu_read_utf16_Inr:
  assumes "nbu_read_utf16 ctx = Inr (utf16, ctx')"
  shows "stream_moved ctx ctx'"
  using assms by (auto simp: nbu_read_utf16_eq split: if_splits)

lemma nbu_read_uint8_InrD:
  "nbu_read_uint8 ctx = Inr (v, ctx') \<Longrightarrow>
   ctx' = ctx\<lparr>fp_pos := fp_pos ctx + 1\<rparr> \<and> fp_pos ctx + 1 \<le> length (fp_data ctx)"
  by (auto simp: nbu_read_uint8_eq split: if_splits)

lemma nbu_read_uint16_InrD:
  "nbu_read_uint16 ctx = Inr (v, ctx') \<Longrightarrow>
   ctx' = ctx\<lparr>fp_pos := fp_pos ctx + 2\<rparr> \<and> fp_pos ctx + 2 \<le> length (fp_data ctx)"
  by (auto simp: nbu_read_uint16_eq split: if_splits)

lemma nbu_read_uint32_InrD:
  "nbu_read_uint32 ctx = Inr (v, ctx') \<Longrightarrow>
   ctx' = ctx\<lparr>fp_pos := fp_pos ctx + 4\<rparr> \<and> fp_pos ctx + 4 \<le> length (fp_data ctx) \<and>
   v = le_at ctx (fp_pos ctx) 4"
  by (auto simp: nbu_read_uint32_eq split: if_splits)

lemma nbu_read_uint64_InrD:
  "nbu_read_uint64 ctx = Inr (v, ctx') \<Longrightarrow>
   ctx' = ctx\<lparr>fp_pos := fp_pos ctx + 8\<rparr> \<and> fp_pos ctx + 8 \<le> length (fp_data ctx)"
  by (auto simp: nbu_read_uint64_eq split: if_splits)

lemma nbu_seek_cur_InrD:
  "nbu_seek ctx off SEEK_CUR = Inr ctx' \<Longrightarrow>
   ctx' = ctx\<lparr>fp_pos := nat (int (fp_pos ctx) + off)\<rparr> \<and> 0 \<le> int (fp_pos ctx) + off"
  by (auto simp: nbu_seek_def Let_def split: if_splits)

lemma nbu_seek_set_InrD:
  "nbu_seek ctx off SEEK_SET = Inr ctx' \<Longrightarrow> ctx' = ctx\<lparr>fp_pos := nat off\<rparr> \<and> 0 \<le> off"
  by (auto simp: nbu_seek_def Let_def split: if_splits)

lemma nbu_seek_moved: "nbu_seek ctx off wh = Inr ctx' \<Longrightarrow> stream_moved ctx ctx'"
  by (cases wh) (auto dest: nbu_seek_cur_InrD nbu_seek_set_InrD)

text \<open>The item records: each body appends one item that starts inside the file.\<close>

lemma nbu_read_vcard_Inr:
  assumes "nbu_read_vcard ctx list = Inr (list', ctx')"
  shows "stream_moved ctx ctx' \<and> (\<exists>item. list' = list @ [item] \<and> item_in_file ctx item)"
  using assms unfolding nbu_read_vcard_def
  by (auto simp: ebind_eq_Inr_iff Let_def nbu_add_item_def item_in_file_def split: if_splits
      dest!: nbu_read_uint32_InrD nbu_tell_Inr nbu_seek_cur_InrD)

lemma nbu_read_message_Inr:
  assumes "nbu_read_message ctx list = Inr (list', ctx')"
  shows "stream_moved ctx ctx' \<and> (\<exists>item. list' = list @ [item] \<and> item_in_file ctx item)"
  using assms unfolding nbu_read_message_def
  by (auto simp: ebind_eq_Inr_iff Let_def nbu_add_item_def item_in_file_def split: if_splits
      dest!: nbu_read_uint32_InrD nbu_tell_Inr nbu_seek_cur_InrD)

lemma nbu_read_memo_Inr:
  assumes "nbu_read_memo ctx list = Inr (list', ctx')"
  shows "stream_moved ctx ctx' \<and> (\<exists>item. list' = list @ [item] \<and> item_in_file ctx item)"
  using assms unfolding nbu_read_memo_def
  by (auto simp: ebind_eq_Inr_iff Let_def nbu_add_item_def item_in_file_def split: if_splits
      dest!: nbu_read_uint16_InrD nbu_tell_Inr nbu_seek_cur_InrD)

lemma nbu_read_mms_strings_Inr:
  "nbu_read_mms_strings n ctx = Inr ctx' \<Longrightarrow> stream_moved ctx ctx'"
proof (induction n arbitrary: ctx)
  case 0
  then show ?case by simp
next
  case (Suc n)
  then show ?case
    by (auto simp: ebind_eq_Inr_iff
        dest!: nbu_seek_moved nbu_read_utf16_Inr intro: stream_moved_trans)
qed

lemma nbu_read_mms_Inr:
  assumes "nbu_read_mms ctx list = Inr (list', ctx')"
  shows "stream_moved ctx ctx' \<and> (\<exists>item. list' = list @ [item] \<and> item_in_file ctx item)"
proof -
  from assms obtain ctx1 n ctx2 ctx3 ctx4 len ctx5 pos ctx6 where
    s1: "nbu_seek ctx 8 SEEK_CUR = Inr ctx1" and
    r1: "nbu_read_uint8 ctx1 = Inr (n, ctx2)" and
    st: "nbu_read_mms_strings (unat n) ctx2 = Inr ctx3" and
    s2: "nbu_seek ctx3 20 SEEK_CUR = Inr ctx4" and
    r2: "nbu_read_uint32 ctx4 = Inr (len, ctx5)" and
    t: "nbu_tell ctx5 = Inr pos" and
    s3: "nbu_seek ctx5 (uint len) SEEK_CUR = Inr ctx6" and
    res: "list' = nbu_add_item list pos len" "ctx' = ctx6"
    unfolding nbu_read_mms_def by (auto simp: ebind_eq_Inr_iff Let_def)
  have m1: "stream_moved ctx ctx1" using s1 by (rule nbu_seek_moved)
  have m2: "stream_moved ctx1 ctx2" using nbu_read_uint8_InrD[OF r1] by auto
  have m3: "stream_moved ctx2 ctx3" using st by (rule nbu_read_mms_strings_Inr)
  have m4: "stream_moved ctx3 ctx4" using s2 by (rule nbu_seek_moved)
  have m5: "stream_moved ctx4 ctx5" using nbu_read_uint32_InrD[OF r2] by auto
  have m6: "stream_moved ctx5 ctx6" using s3 by (rule nbu_seek_moved)
  have m05: "stream_moved ctx ctx5"
    using m1 m2 m3 m4 m5 by (blast intro: stream_moved_trans)
  then have m: "stream_moved ctx ctx'"
    using m6 res(2) by (blast intro: stream_moved_trans)
  have "fp_pos ctx5 \<le> length (fp_data ctx5)"
    using nbu_read_uint32_InrD[OF r2] by auto
  then have "item_in_file ctx5 \<lparr>item_pos = pos, item_len = len\<rparr>"
    using nbu_tell_Inr[OF t] by (simp add: item_in_file_def)
  then have "item_in_file ctx \<lparr>item_pos = pos, item_len = len\<rparr>"
    using item_in_file_moved[OF m05] by simp
  with m res(1) show ?thesis by (auto simp: nbu_add_item_def)
qed

text \<open>The loops over item records append items that start inside the file.\<close>

lemma nbu_read_vcards_loop_Inr:
  "nbu_read_vcards_loop n ctx list = Inr (list', ctx') \<Longrightarrow>
   stream_moved ctx ctx' \<and> (\<exists>new. list' = list @ new \<and> (\<forall>i\<in>set new. item_in_file ctx i))"
proof (induction n arbitrary: ctx list)
  case 0
  then show ?case by simp
next
  case (Suc n)
  from Suc.prems obtain l1 c1 where
    b: "nbu_read_vcard ctx list = Inr (l1, c1)" and r: "nbu_read_vcards_loop n c1 l1 = Inr (list', ctx')"
    by (auto simp: ebind_eq_Inr_iff)
  from nbu_read_vcard_Inr[OF b] obtain item where
    m1: "stream_moved ctx c1" and l1: "l1 = list @ [item]" and i1: "item_in_file ctx item"
    by auto
  from Suc.IH[OF r] obtain new where
    m2: "stream_moved c1 ctx'" and l2: "list' = l1 @ new" and i2: "\<forall>i\<in>set new. item_in_file c1 i"
    by auto
  have "\<forall>i\<in>set (item # new). item_in_file ctx i"
    using i1 i2 item_in_file_moved[OF m1] by simp
  moreover have "list' = list @ item # new" using l1 l2 by simp
  ultimately show ?case using stream_moved_trans[OF m1 m2] by blast
qed

lemma nbu_read_messages_loop_Inr:
  "nbu_read_messages_loop n ctx list = Inr (list', ctx') \<Longrightarrow>
   stream_moved ctx ctx' \<and> (\<exists>new. list' = list @ new \<and> (\<forall>i\<in>set new. item_in_file ctx i))"
proof (induction n arbitrary: ctx list)
  case 0
  then show ?case by simp
next
  case (Suc n)
  from Suc.prems obtain l1 c1 where
    b: "nbu_read_message ctx list = Inr (l1, c1)" and r: "nbu_read_messages_loop n c1 l1 = Inr (list', ctx')"
    by (auto simp: ebind_eq_Inr_iff)
  from nbu_read_message_Inr[OF b] obtain item where
    m1: "stream_moved ctx c1" and l1: "l1 = list @ [item]" and i1: "item_in_file ctx item"
    by auto
  from Suc.IH[OF r] obtain new where
    m2: "stream_moved c1 ctx'" and l2: "list' = l1 @ new" and i2: "\<forall>i\<in>set new. item_in_file c1 i"
    by auto
  have "\<forall>i\<in>set (item # new). item_in_file ctx i"
    using i1 i2 item_in_file_moved[OF m1] by simp
  moreover have "list' = list @ item # new" using l1 l2 by simp
  ultimately show ?case using stream_moved_trans[OF m1 m2] by blast
qed

lemma nbu_read_mmses_loop_Inr:
  "nbu_read_mmses_loop n ctx list = Inr (list', ctx') \<Longrightarrow>
   stream_moved ctx ctx' \<and> (\<exists>new. list' = list @ new \<and> (\<forall>i\<in>set new. item_in_file ctx i))"
proof (induction n arbitrary: ctx list)
  case 0
  then show ?case by simp
next
  case (Suc n)
  from Suc.prems obtain l1 c1 where
    b: "nbu_read_mms ctx list = Inr (l1, c1)" and r: "nbu_read_mmses_loop n c1 l1 = Inr (list', ctx')"
    by (auto simp: ebind_eq_Inr_iff)
  from nbu_read_mms_Inr[OF b] obtain item where
    m1: "stream_moved ctx c1" and l1: "l1 = list @ [item]" and i1: "item_in_file ctx item"
    by auto
  from Suc.IH[OF r] obtain new where
    m2: "stream_moved c1 ctx'" and l2: "list' = l1 @ new" and i2: "\<forall>i\<in>set new. item_in_file c1 i"
    by auto
  have "\<forall>i\<in>set (item # new). item_in_file ctx i"
    using i1 i2 item_in_file_moved[OF m1] by simp
  moreover have "list' = list @ item # new" using l1 l2 by simp
  ultimately show ?case using stream_moved_trans[OF m1 m2] by blast
qed

lemma nbu_read_memos_loop_Inr:
  "nbu_read_memos_loop n ctx list = Inr (list', ctx') \<Longrightarrow>
   stream_moved ctx ctx' \<and> (\<exists>new. list' = list @ new \<and> (\<forall>i\<in>set new. item_in_file ctx i))"
proof (induction n arbitrary: ctx list)
  case 0
  then show ?case by simp
next
  case (Suc n)
  from Suc.prems obtain l1 c1 where
    b: "nbu_read_memo ctx list = Inr (l1, c1)" and r: "nbu_read_memos_loop n c1 l1 = Inr (list', ctx')"
    by (auto simp: ebind_eq_Inr_iff)
  from nbu_read_memo_Inr[OF b] obtain item where
    m1: "stream_moved ctx c1" and l1: "l1 = list @ [item]" and i1: "item_in_file ctx item"
    by auto
  from Suc.IH[OF r] obtain new where
    m2: "stream_moved c1 ctx'" and l2: "list' = l1 @ new" and i2: "\<forall>i\<in>set new. item_in_file c1 i"
    by auto
  have "\<forall>i\<in>set (item # new). item_in_file ctx i"
    using i1 i2 item_in_file_moved[OF m1] by simp
  moreover have "list' = list @ item # new" using l1 l2 by simp
  ultimately show ?case using stream_moved_trans[OF m1 m2] by blast
qed

lemma nbu_read_vcards_Inr:
  assumes "nbu_read_vcards ctx [] = Inr (list, ctx')"
  shows "stream_moved ctx ctx' \<and> (\<forall>i\<in>set list. item_in_file ctx i)"
proof -
  from assms obtain n c1 where
    r: "nbu_read_uint32 ctx = Inr (n, c1)" and l: "nbu_read_vcards_loop (unat n) c1 [] = Inr (list, ctx')"
    unfolding nbu_read_vcards_def by (auto simp: ebind_eq_Inr_iff)
  have m1: "stream_moved ctx c1" using nbu_read_uint32_InrD[OF r] by auto
  from nbu_read_vcards_loop_Inr[OF l] have
    m2: "stream_moved c1 ctx'" and i: "\<forall>i\<in>set list. item_in_file c1 i"
    by auto
  show ?thesis
    using stream_moved_trans[OF m1 m2] i item_in_file_moved[OF m1] by simp
qed

text \<open>The folders: each holds items that start inside the file.\<close>

lemma nbu_read_vcard_folder_Inr:
  assumes "nbu_read_vcard_folder ctx folder_pos = Inr (folder, ctx')"
  shows "stream_moved ctx ctx' \<and> (\<forall>i\<in>set (folder_items folder). item_in_file ctx i)"
proof -
  from assms obtain c1 name c2 utf8 items where
    s: "nbu_seek ctx (sint (folder_pos + 4)) SEEK_SET = Inr c1" and
    n: "nbu_read_utf16 c1 = Inr (name, c2)" and
    v: "nbu_read_vcards c2 [] = Inr (items, ctx')" and
    f: "folder = \<lparr>folder_name = name, folder_items = items\<rparr>"
    unfolding nbu_read_vcard_folder_def by (auto simp: ebind_eq_Inr_iff)
  have m12: "stream_moved ctx c2"
    using nbu_seek_moved[OF s] nbu_read_utf16_Inr[OF n] by (rule stream_moved_trans)
  from nbu_read_vcards_Inr[OF v] have
    m3: "stream_moved c2 ctx'" and i: "\<forall>i\<in>set items. item_in_file c2 i"
    by auto
  show ?thesis
    using stream_moved_trans[OF m12 m3] i item_in_file_moved[OF m12] f by simp
qed

lemma nbu_read_message_folder_Inr:
  assumes "nbu_read_message_folder ctx folder_pos = Inr (folder, ctx')"
  shows "stream_moved ctx ctx' \<and> (\<forall>i\<in>set (folder_items folder). item_in_file ctx i)"
proof -
  from assms obtain c1 name c2 nitems c3 utf8 items where
    s: "nbu_seek ctx (sint (folder_pos + 4)) SEEK_SET = Inr c1" and
    n: "nbu_read_utf16 c1 = Inr (name, c2)" and
    r: "nbu_read_uint32 c2 = Inr (nitems, c3)" and
    v: "nbu_read_messages_loop (unat nitems) c3 [] = Inr (items, ctx')" and
    f: "folder = \<lparr>folder_name = name, folder_items = items\<rparr>"
    unfolding nbu_read_message_folder_def by (auto simp: ebind_eq_Inr_iff)
  have m12: "stream_moved ctx c2"
    using nbu_seek_moved[OF s] nbu_read_utf16_Inr[OF n] by (rule stream_moved_trans)
  have "stream_moved c2 c3" using nbu_read_uint32_InrD[OF r] by auto
  with m12 have m13: "stream_moved ctx c3" by (rule stream_moved_trans)
  from nbu_read_messages_loop_Inr[OF v] have
    m3: "stream_moved c3 ctx'" and i: "\<forall>i\<in>set items. item_in_file c3 i"
    by auto
  show ?thesis
    using stream_moved_trans[OF m13 m3] i item_in_file_moved[OF m13] f by simp
qed

lemma nbu_read_mms_folder_Inr:
  assumes "nbu_read_mms_folder ctx folder_pos = Inr (folder, ctx')"
  shows "stream_moved ctx ctx' \<and> (\<forall>i\<in>set (folder_items folder). item_in_file ctx i)"
proof -
  from assms obtain c1 name c2 nitems c3 utf8 items where
    s: "nbu_seek ctx (sint (folder_pos + 4)) SEEK_SET = Inr c1" and
    n: "nbu_read_utf16 c1 = Inr (name, c2)" and
    r: "nbu_read_uint32 c2 = Inr (nitems, c3)" and
    v: "nbu_read_mmses_loop (unat nitems) c3 [] = Inr (items, ctx')" and
    f: "folder = \<lparr>folder_name = name, folder_items = items\<rparr>"
    unfolding nbu_read_mms_folder_def by (auto simp: ebind_eq_Inr_iff)
  have m12: "stream_moved ctx c2"
    using nbu_seek_moved[OF s] nbu_read_utf16_Inr[OF n] by (rule stream_moved_trans)
  have "stream_moved c2 c3" using nbu_read_uint32_InrD[OF r] by auto
  with m12 have m13: "stream_moved ctx c3" by (rule stream_moved_trans)
  from nbu_read_mmses_loop_Inr[OF v] have
    m3: "stream_moved c3 ctx'" and i: "\<forall>i\<in>set items. item_in_file c3 i"
    by auto
  show ?thesis
    using stream_moved_trans[OF m13 m3] i item_in_file_moved[OF m13] f by simp
qed

lemma nbu_read_group_folder_Inr:
  assumes "nbu_read_group_folder ctx folder_pos = Inr (folder, ctx')"
  shows "stream_moved ctx ctx'"
proof -
  from assms obtain c1 name c2 nitems where
    s: "nbu_seek ctx (sint (folder_pos + 4)) SEEK_SET = Inr c1" and
    n: "nbu_read_utf16 c1 = Inr (name, c2)" and
    r: "nbu_read_uint32 c2 = Inr (nitems, ctx')"
    unfolding nbu_read_group_folder_def by (auto simp: ebind_eq_Inr_iff)
  have m12: "stream_moved ctx c2"
    using nbu_seek_moved[OF s] nbu_read_utf16_Inr[OF n] by (rule stream_moved_trans)
  have "stream_moved c2 ctx'" using nbu_read_uint32_InrD[OF r] by auto
  with m12 show ?thesis by (rule stream_moved_trans)
qed

text \<open>
  One entry of a folder table: whatever the folder reader does to the stream, the entry
  ends 12 bytes after its start.
\<close>

lemma folder_entry_Inr:
  assumes run: "ebind (nbu_seek ctx 4 SEEK_CUR) (\<lambda>ctx1.
     ebind (nbu_read_uint64 ctx1) (\<lambda>(folder_pos, ctx2).
     ebind (nbu_tell ctx2) (\<lambda>pos.
     ebind (rd ctx2 folder_pos) (\<lambda>(folder, ctx3).
     ebind (nbu_seek ctx3 pos SEEK_SET) (\<lambda>ctx4. k ctx4 folder))))) = Inr r"
    and rd: "\<And>c fp f c'. rd c fp = Inr (f, c') \<Longrightarrow>
       stream_moved c c' \<and> (\<forall>i\<in>set (folder_items f). item_in_file c i)"
  shows "\<exists>folder ctx4. stream_moved ctx ctx4 \<and> fp_pos ctx4 = fp_pos ctx + 12 \<and>
     (\<forall>i\<in>set (folder_items folder). item_in_file ctx i) \<and> k ctx4 folder = Inr r"
proof -
  from run obtain ctx1 folder_pos ctx2 pos folder ctx3 ctx4 where
    s1: "nbu_seek ctx 4 SEEK_CUR = Inr ctx1" and
    r1: "nbu_read_uint64 ctx1 = Inr (folder_pos, ctx2)" and
    t: "nbu_tell ctx2 = Inr pos" and
    f: "rd ctx2 folder_pos = Inr (folder, ctx3)" and
    s2: "nbu_seek ctx3 pos SEEK_SET = Inr ctx4" and
    k: "k ctx4 folder = Inr r"
    by (auto simp: ebind_eq_Inr_iff)
  have c1: "ctx1 = ctx\<lparr>fp_pos := fp_pos ctx + 4\<rparr>"
    using nbu_seek_cur_InrD[OF s1] by (simp add: nat_add_distrib)
  have c2: "ctx2 = ctx\<lparr>fp_pos := fp_pos ctx + 12\<rparr>"
    using nbu_read_uint64_InrD[OF r1] c1 by simp
  have pos: "pos = int (fp_pos ctx + 12)"
    using nbu_tell_Inr[OF t] c2 by simp
  have m2: "stream_moved ctx ctx2" unfolding c2 by simp
  from rd[OF f] have m3: "stream_moved ctx2 ctx3"
    and i: "\<forall>i\<in>set (folder_items folder). item_in_file ctx2 i" by auto
  have m4: "stream_moved ctx3 ctx4" using s2 by (rule nbu_seek_moved)
  have p4: "fp_pos ctx4 = fp_pos ctx + 12"
    using nbu_seek_set_InrD[OF s2] pos by simp
  have "stream_moved ctx ctx4"
    using m2 m3 m4 by (blast intro: stream_moved_trans)
  moreover have "\<forall>i\<in>set (folder_items folder). item_in_file ctx i"
    using i item_in_file_moved[OF m2] by simp
  ultimately show ?thesis using p4 k by blast
qed

lemma nbu_read_vcard_folders_loop_Inr:
  "nbu_read_vcard_folders_loop n ctx list = Inr (list', ctx') \<Longrightarrow>
   stream_moved ctx ctx' \<and> fp_pos ctx' = fp_pos ctx + 12 * n \<and>
   (\<exists>new. list' = list @ new \<and> (\<forall>f\<in>set new. \<forall>i\<in>set (folder_items f). item_in_file ctx i))"
proof (induction n arbitrary: ctx list)
  case 0
  then show ?case by simp
next
  case (Suc n)
  from Suc.prems have "ebind (nbu_seek ctx 4 SEEK_CUR) (\<lambda>ctx1.
     ebind (nbu_read_uint64 ctx1) (\<lambda>(folder_pos, ctx2).
     ebind (nbu_tell ctx2) (\<lambda>pos.
     ebind (nbu_read_vcard_folder ctx2 folder_pos) (\<lambda>(folder, ctx3).
     ebind (nbu_seek ctx3 pos SEEK_SET) (\<lambda>ctx4.
       nbu_read_vcard_folders_loop n ctx4 (list @ [folder])))))) = Inr (list', ctx')"
    by simp
  then have "\<exists>folder ctx4. stream_moved ctx ctx4 \<and> fp_pos ctx4 = fp_pos ctx + 12 \<and>
     (\<forall>i\<in>set (folder_items folder). item_in_file ctx i) \<and>
     nbu_read_vcard_folders_loop n ctx4 (list @ [folder]) = Inr (list', ctx')"
    by (rule folder_entry_Inr) (rule nbu_read_vcard_folder_Inr)
  then obtain folder ctx4 where
    m1: "stream_moved ctx ctx4" and p1: "fp_pos ctx4 = fp_pos ctx + 12" and
    i1: "\<forall>i\<in>set (folder_items folder). item_in_file ctx i" and
    r: "nbu_read_vcard_folders_loop n ctx4 (list @ [folder]) = Inr (list', ctx')"
    by blast
  from Suc.IH[OF r] obtain new where
    m2: "stream_moved ctx4 ctx'" and p2: "fp_pos ctx' = fp_pos ctx4 + 12 * n" and
    l2: "list' = (list @ [folder]) @ new" and
    i2: "\<forall>f\<in>set new. \<forall>i\<in>set (folder_items f). item_in_file ctx4 i"
    by auto
  have "\<forall>f\<in>set (folder # new). \<forall>i\<in>set (folder_items f). item_in_file ctx i"
    using i1 i2 item_in_file_moved[OF m1] by simp
  moreover have "list' = list @ folder # new" using l2 by simp
  moreover have "fp_pos ctx' = fp_pos ctx + 12 * Suc n" using p1 p2 by simp
  ultimately show ?case using stream_moved_trans[OF m1 m2] by blast
qed

lemma nbu_read_message_folders_loop_Inr:
  "nbu_read_message_folders_loop n ctx list = Inr (list', ctx') \<Longrightarrow>
   stream_moved ctx ctx' \<and> fp_pos ctx' = fp_pos ctx + 12 * n \<and>
   (\<exists>new. list' = list @ new \<and> (\<forall>f\<in>set new. \<forall>i\<in>set (folder_items f). item_in_file ctx i))"
proof (induction n arbitrary: ctx list)
  case 0
  then show ?case by simp
next
  case (Suc n)
  from Suc.prems have "ebind (nbu_seek ctx 4 SEEK_CUR) (\<lambda>ctx1.
     ebind (nbu_read_uint64 ctx1) (\<lambda>(folder_pos, ctx2).
     ebind (nbu_tell ctx2) (\<lambda>pos.
     ebind (nbu_read_message_folder ctx2 folder_pos) (\<lambda>(folder, ctx3).
     ebind (nbu_seek ctx3 pos SEEK_SET) (\<lambda>ctx4.
       nbu_read_message_folders_loop n ctx4 (list @ [folder])))))) = Inr (list', ctx')"
    by simp
  then have "\<exists>folder ctx4. stream_moved ctx ctx4 \<and> fp_pos ctx4 = fp_pos ctx + 12 \<and>
     (\<forall>i\<in>set (folder_items folder). item_in_file ctx i) \<and>
     nbu_read_message_folders_loop n ctx4 (list @ [folder]) = Inr (list', ctx')"
    by (rule folder_entry_Inr) (rule nbu_read_message_folder_Inr)
  then obtain folder ctx4 where
    m1: "stream_moved ctx ctx4" and p1: "fp_pos ctx4 = fp_pos ctx + 12" and
    i1: "\<forall>i\<in>set (folder_items folder). item_in_file ctx i" and
    r: "nbu_read_message_folders_loop n ctx4 (list @ [folder]) = Inr (list', ctx')"
    by blast
  from Suc.IH[OF r] obtain new where
    m2: "stream_moved ctx4 ctx'" and p2: "fp_pos ctx' = fp_pos ctx4 + 12 * n" and
    l2: "list' = (list @ [folder]) @ new" and
    i2: "\<forall>f\<in>set new. \<forall>i\<in>set (folder_items f). item_in_file ctx4 i"
    by auto
  have "\<forall>f\<in>set (folder # new). \<forall>i\<in>set (folder_items f). item_in_file ctx i"
    using i1 i2 item_in_file_moved[OF m1] by simp
  moreover have "list' = list @ folder # new" using l2 by simp
  moreover have "fp_pos ctx' = fp_pos ctx + 12 * Suc n" using p1 p2 by simp
  ultimately show ?case using stream_moved_trans[OF m1 m2] by blast
qed

lemma nbu_read_mms_folders_loop_Inr:
  "nbu_read_mms_folders_loop n ctx list = Inr (list', ctx') \<Longrightarrow>
   stream_moved ctx ctx' \<and> fp_pos ctx' = fp_pos ctx + 12 * n \<and>
   (\<exists>new. list' = list @ new \<and> (\<forall>f\<in>set new. \<forall>i\<in>set (folder_items f). item_in_file ctx i))"
proof (induction n arbitrary: ctx list)
  case 0
  then show ?case by simp
next
  case (Suc n)
  from Suc.prems have "ebind (nbu_seek ctx 4 SEEK_CUR) (\<lambda>ctx1.
     ebind (nbu_read_uint64 ctx1) (\<lambda>(folder_pos, ctx2).
     ebind (nbu_tell ctx2) (\<lambda>pos.
     ebind (nbu_read_mms_folder ctx2 folder_pos) (\<lambda>(folder, ctx3).
     ebind (nbu_seek ctx3 pos SEEK_SET) (\<lambda>ctx4.
       nbu_read_mms_folders_loop n ctx4 (list @ [folder])))))) = Inr (list', ctx')"
    by simp
  then have "\<exists>folder ctx4. stream_moved ctx ctx4 \<and> fp_pos ctx4 = fp_pos ctx + 12 \<and>
     (\<forall>i\<in>set (folder_items folder). item_in_file ctx i) \<and>
     nbu_read_mms_folders_loop n ctx4 (list @ [folder]) = Inr (list', ctx')"
    by (rule folder_entry_Inr) (rule nbu_read_mms_folder_Inr)
  then obtain folder ctx4 where
    m1: "stream_moved ctx ctx4" and p1: "fp_pos ctx4 = fp_pos ctx + 12" and
    i1: "\<forall>i\<in>set (folder_items folder). item_in_file ctx i" and
    r: "nbu_read_mms_folders_loop n ctx4 (list @ [folder]) = Inr (list', ctx')"
    by blast
  from Suc.IH[OF r] obtain new where
    m2: "stream_moved ctx4 ctx'" and p2: "fp_pos ctx' = fp_pos ctx4 + 12 * n" and
    l2: "list' = (list @ [folder]) @ new" and
    i2: "\<forall>f\<in>set new. \<forall>i\<in>set (folder_items f). item_in_file ctx4 i"
    by auto
  have "\<forall>f\<in>set (folder # new). \<forall>i\<in>set (folder_items f). item_in_file ctx i"
    using i1 i2 item_in_file_moved[OF m1] by simp
  moreover have "list' = list @ folder # new" using l2 by simp
  moreover have "fp_pos ctx' = fp_pos ctx + 12 * Suc n" using p1 p2 by simp
  ultimately show ?case using stream_moved_trans[OF m1 m2] by blast
qed

lemma nbu_read_group_folder_Inr':
  "nbu_read_group_folder c fp = Inr (f, c') \<Longrightarrow>
   stream_moved c c' \<and> (\<forall>i\<in>set (folder_items f). item_in_file c i)"
  using nbu_read_group_folder_Inr[of c fp f c']
  by (auto simp: nbu_read_group_folder_def ebind_eq_Inr_iff)

lemma nbu_read_groups_loop_Inr:
  "nbu_read_groups_loop n ctx = Inr ctx' \<Longrightarrow>
   stream_moved ctx ctx' \<and> fp_pos ctx' = fp_pos ctx + 12 * n"
proof (induction n arbitrary: ctx)
  case 0
  then show ?case by simp
next
  case (Suc n)
  from Suc.prems have "ebind (nbu_seek ctx 4 SEEK_CUR) (\<lambda>ctx1.
     ebind (nbu_read_uint64 ctx1) (\<lambda>(folder_pos, ctx2).
     ebind (nbu_tell ctx2) (\<lambda>pos.
     ebind (nbu_read_group_folder ctx2 folder_pos) (\<lambda>(folder, ctx3).
     ebind (nbu_seek ctx3 pos SEEK_SET) (\<lambda>ctx4.
       nbu_read_groups_loop n ctx4))))) = Inr ctx'"
    by simp
  then have "\<exists>(folder :: nbu_folder) ctx4. stream_moved ctx ctx4 \<and> fp_pos ctx4 = fp_pos ctx + 12 \<and>
     (\<forall>i\<in>set (folder_items folder). item_in_file ctx i) \<and>
     nbu_read_groups_loop n ctx4 = Inr ctx'"
    by (rule folder_entry_Inr[where k = "\<lambda>c f. nbu_read_groups_loop n c" and rd = nbu_read_group_folder])
      (rule nbu_read_group_folder_Inr')
  then obtain ctx4 where
    m1: "stream_moved ctx ctx4" and p1: "fp_pos ctx4 = fp_pos ctx + 12" and
    r: "nbu_read_groups_loop n ctx4 = Inr ctx'"
    by blast
  from Suc.IH[OF r] have
    m2: "stream_moved ctx4 ctx'" and p2: "fp_pos ctx' = fp_pos ctx4 + 12 * n"
    by auto
  have "fp_pos ctx' = fp_pos ctx + 12 * Suc n" using p1 p2 by simp
  then show ?case using stream_moved_trans[OF m1 m2] by blast
qed

lemma nbu_read_advanced_settings_loop_Inr:
  "nbu_read_advanced_settings_loop n ctx = Inr ctx' \<Longrightarrow>
   stream_moved ctx ctx' \<and> fp_pos ctx' = fp_pos ctx + 12 * n"
proof (induction n arbitrary: ctx)
  case 0
  then show ?case by simp
next
  case (Suc n)
  from Suc.prems obtain ctx1 folder_pos ctx2 pos ctx3 where
    s1: "nbu_seek ctx 4 SEEK_CUR = Inr ctx1" and
    r1: "nbu_read_uint64 ctx1 = Inr (folder_pos, ctx2)" and
    t: "nbu_tell ctx2 = Inr pos" and
    s2: "nbu_seek ctx2 pos SEEK_SET = Inr ctx3" and
    r: "nbu_read_advanced_settings_loop n ctx3 = Inr ctx'"
    by (auto simp: ebind_eq_Inr_iff)
  have c1: "ctx1 = ctx\<lparr>fp_pos := fp_pos ctx + 4\<rparr>"
    using nbu_seek_cur_InrD[OF s1] by (simp add: nat_add_distrib)
  have c2: "ctx2 = ctx\<lparr>fp_pos := fp_pos ctx + 12\<rparr>"
    using nbu_read_uint64_InrD[OF r1] c1 by simp
  have pos: "pos = int (fp_pos ctx + 12)"
    using nbu_tell_Inr[OF t] c2 by simp
  have c3: "ctx3 = ctx\<lparr>fp_pos := fp_pos ctx + 12\<rparr>"
    using nbu_seek_set_InrD[OF s2] pos c2 by simp
  from Suc.IH[OF r] have
    m2: "stream_moved ctx3 ctx'" and p2: "fp_pos ctx' = fp_pos ctx3 + 12 * n"
    by auto
  have m1: "stream_moved ctx ctx3" unfolding c3 by simp
  have "fp_pos ctx' = fp_pos ctx + 12 * Suc n" using p2 c3 by simp
  then show ?case using stream_moved_trans[OF m1 m2] by blast
qed

lemma stream_movedE:
  assumes "stream_moved a b"
  obtains p where "b = a\<lparr>fp_pos := p\<rparr>"
  using assms unfolding stream_moved_def by blast

lemma items_calendar_update:
  "set (nbu_ctx_items (c\<lparr>calendar := Some l\<rparr>)) \<subseteq> set l \<union> set (nbu_ctx_items c)"
  by (auto simp: nbu_ctx_items_def items_of_def)

lemma items_contacts_update:
  "set (nbu_ctx_items (c\<lparr>contacts := Some l\<rparr>)) \<subseteq> set l \<union> set (nbu_ctx_items c)"
  by (auto simp: nbu_ctx_items_def items_of_def)

lemma items_memos_update:
  "set (nbu_ctx_items (c\<lparr>memos := Some l\<rparr>)) \<subseteq> set l \<union> set (nbu_ctx_items c)"
  by (auto simp: nbu_ctx_items_def items_of_def)

lemma items_bookmarks_update:
  "set (nbu_ctx_items (c\<lparr>bookmarks := Some fl\<rparr>)) \<subseteq>
     (\<Union>f\<in>set fl. set (folder_items f)) \<union> set (nbu_ctx_items c)"
  by (auto simp: nbu_ctx_items_def folder_items_of_def)

lemma items_messages_update:
  "set (nbu_ctx_items (c\<lparr>messages := Some fl\<rparr>)) \<subseteq>
     (\<Union>f\<in>set fl. set (folder_items f)) \<union> set (nbu_ctx_items c)"
  by (auto simp: nbu_ctx_items_def folder_items_of_def)

lemma items_mmses_update:
  "set (nbu_ctx_items (c\<lparr>mmses := Some fl\<rparr>)) \<subseteq>
     (\<Union>f\<in>set fl. set (folder_items f)) \<union> set (nbu_ctx_items c)"
  by (auto simp: nbu_ctx_items_def folder_items_of_def)

lemma nbu_read_vcard_section_Inr:
  assumes "nbu_read_vcard_section ctx section_pos = Inr (list, ctx')"
  shows "stream_moved ctx ctx' \<and> fp_pos ctx' = fp_pos ctx + 8 \<and> (\<forall>i\<in>set list. item_in_file ctx i)"
proof -
  from assms obtain nitems c1 nfolders c2 pos c3 c4 where
    r1: "nbu_read_uint32 ctx = Inr (nitems, c1)" and
    r2: "nbu_read_uint32 c1 = Inr (nfolders, c2)" and
    t: "nbu_tell c2 = Inr pos" and
    s1: "nbu_seek c2 (sint (section_pos + 44)) SEEK_SET = Inr c3" and
    v: "nbu_read_vcards c3 [] = Inr (list, c4)" and
    s2: "nbu_seek c4 pos SEEK_SET = Inr ctx'"
    unfolding nbu_read_vcard_section_def
    by (auto simp: ebind_eq_Inr_iff split: if_splits)
  have c2: "c2 = ctx\<lparr>fp_pos := fp_pos ctx + 8\<rparr>"
    using nbu_read_uint32_InrD[OF r1] nbu_read_uint32_InrD[OF r2] by simp
  have pos: "pos = int (fp_pos ctx + 8)"
    using nbu_tell_Inr[OF t] c2 by simp
  have m2: "stream_moved ctx c2" unfolding c2 by simp
  have m3: "stream_moved c2 c3" using s1 by (rule nbu_seek_moved)
  from nbu_read_vcards_Inr[OF v] have m4: "stream_moved c3 c4"
    and i: "\<forall>i\<in>set list. item_in_file c3 i" by auto
  have m5: "stream_moved c4 ctx'" using s2 by (rule nbu_seek_moved)
  have m03: "stream_moved ctx c3" using m2 m3 by (rule stream_moved_trans)
  have "stream_moved ctx ctx'"
    using m03 m4 m5 by (blast intro: stream_moved_trans)
  moreover have "fp_pos ctx' = fp_pos ctx + 8"
    using nbu_seek_set_InrD[OF s2] pos by simp
  moreover have "\<forall>i\<in>set list. item_in_file ctx i"
    using i item_in_file_moved[OF m03] by simp
  ultimately show ?thesis by blast
qed

lemma nbu_read_calendar_section_effect:
  assumes "nbu_read_calendar_section ctx section_pos = Inr ctx'"
  shows "handler_effect False ctx ctx'"
proof -
  from assms obtain list c1 where
    v: "nbu_read_vcard_section ctx section_pos = Inr (list, c1)" and
    c: "ctx' = c1\<lparr>calendar := Some list\<rparr>"
    unfolding nbu_read_calendar_section_def by (auto simp: ebind_eq_Inr_iff)
  from nbu_read_vcard_section_Inr[OF v] have m: "stream_moved ctx c1"
    and p: "fp_pos c1 = fp_pos ctx + 8" and i: "\<forall>i\<in>set list. item_in_file ctx i" by auto
  have "set (nbu_ctx_items ctx') \<subseteq> set list \<union> set (nbu_ctx_items ctx)"
    unfolding c using items_calendar_update[where c = c1 and l = list] stream_moved_items[OF m] by simp
  then show ?thesis
    unfolding handler_effect_def inline_fields_len_def using i p stream_moved_data[OF m] c by auto
qed

lemma nbu_read_contacts_section_effect:
  assumes "nbu_read_contacts_section ctx section_pos = Inr ctx'"
  shows "handler_effect False ctx ctx'"
proof -
  from assms obtain list c1 where
    v: "nbu_read_vcard_section ctx section_pos = Inr (list, c1)" and
    c: "ctx' = c1\<lparr>contacts := Some list\<rparr>"
    unfolding nbu_read_contacts_section_def by (auto simp: ebind_eq_Inr_iff)
  from nbu_read_vcard_section_Inr[OF v] have m: "stream_moved ctx c1"
    and p: "fp_pos c1 = fp_pos ctx + 8" and i: "\<forall>i\<in>set list. item_in_file ctx i" by auto
  have "set (nbu_ctx_items ctx') \<subseteq> set list \<union> set (nbu_ctx_items ctx)"
    unfolding c using items_contacts_update[where c = c1 and l = list] stream_moved_items[OF m] by simp
  then show ?thesis
    unfolding handler_effect_def inline_fields_len_def using i p stream_moved_data[OF m] c by auto
qed

lemma nbu_read_memos_section_effect:
  assumes "nbu_read_memos_section ctx section_pos = Inr ctx'"
  shows "handler_effect False ctx ctx'"
proof -
  let ?c0 = "ctx\<lparr>memos := Some []\<rparr>"
  from assms obtain nmemos c1 pos c2 list c3 where
    r: "nbu_read_uint32 ?c0 = Inr (nmemos, c1)" and
    t: "nbu_tell c1 = Inr pos" and
    s1: "nbu_seek c1 (sint (section_pos + 48)) SEEK_SET = Inr c2" and
    l: "nbu_read_memos_loop (unat nmemos) c2 [] = Inr (list, c3)" and
    s2: "nbu_seek (c3\<lparr>memos := Some list\<rparr>) (pos + 4) SEEK_SET = Inr ctx'"
    unfolding nbu_read_memos_section_def by (auto simp: ebind_eq_Inr_iff)
  have c1: "c1 = ?c0\<lparr>fp_pos := fp_pos ctx + 4\<rparr>"
    using nbu_read_uint32_InrD[OF r] by simp
  have pos: "pos = int (fp_pos ctx + 4)"
    using nbu_tell_Inr[OF t] c1 by simp
  have m1: "stream_moved ?c0 c1" unfolding c1 by simp
  have m2: "stream_moved c1 c2" using s1 by (rule nbu_seek_moved)
  from nbu_read_memos_loop_Inr[OF l] have m3: "stream_moved c2 c3"
    and i: "\<forall>i\<in>set list. item_in_file c2 i" by auto
  have m02: "stream_moved ?c0 c2" using m1 m2 by (rule stream_moved_trans)
  have m03: "stream_moved ?c0 c3" using m02 m3 by (rule stream_moved_trans)
  then obtain q where c3: "c3 = ?c0\<lparr>fp_pos := q\<rparr>" by (rule stream_movedE)
  have c': "ctx' = ctx\<lparr>memos := Some list, fp_pos := fp_pos ctx + 8\<rparr>"
    using nbu_seek_set_InrD[OF s2] pos unfolding c3 by simp
  have inf: "\<forall>i\<in>set list. item_in_file ctx i"
    using i item_in_file_moved[OF m02] by (simp add: item_in_file_def)
  have "set (nbu_ctx_items ctx') \<subseteq> set list \<union> set (nbu_ctx_items ctx)"
    unfolding c' using items_memos_update[where c = ctx and l = list]
    by (simp add: nbu_ctx_items_def)
  then show ?thesis
    unfolding handler_effect_def inline_fields_len_def using inf c' by auto
qed

lemma le_at_same_data: "fp_data a = fp_data b \<Longrightarrow> le_at a off n = le_at b off n"
  by (simp add: le_at_def)

lemma nbu_read_two_counts:
  assumes r1: "nbu_read_uint32 c0 = Inr (n, c1)" and r2: "nbu_read_uint32 c1 = Inr (nfolders, c2)"
  shows "c2 = c0\<lparr>fp_pos := fp_pos c0 + 8\<rparr>" and "nfolders = le_at c0 (fp_pos c0 + 4) 4"
proof -
  have c1: "c1 = c0\<lparr>fp_pos := fp_pos c0 + 4\<rparr>"
    using nbu_read_uint32_InrD[OF r1] by simp
  show "c2 = c0\<lparr>fp_pos := fp_pos c0 + 8\<rparr>"
    using nbu_read_uint32_InrD[OF r2] c1 by simp
  show "nfolders = le_at c0 (fp_pos c0 + 4) 4"
    using nbu_read_uint32_InrD[OF r2] c1 by simp
qed

lemma nbu_read_advanced_settings_section_effect:
  assumes "nbu_read_advanced_settings_section ctx section_pos = Inr ctx'"
  shows "handler_effect True ctx ctx'"
proof -
  from assms obtain n c1 nfolders c2 where
    r1: "nbu_read_uint32 ctx = Inr (n, c1)" and
    r2: "nbu_read_uint32 c1 = Inr (nfolders, c2)" and
    l: "nbu_read_advanced_settings_loop (unat nfolders) c2 = Inr ctx'"
    unfolding nbu_read_advanced_settings_section_def by (auto simp: ebind_eq_Inr_iff)
  note c = nbu_read_two_counts[OF r1 r2]
  from nbu_read_advanced_settings_loop_Inr[OF l] have m: "stream_moved c2 ctx'"
    and p: "fp_pos ctx' = fp_pos c2 + 12 * unat nfolders" by auto
  have m0: "stream_moved ctx ctx'"
    using m unfolding c(1) by (auto elim!: stream_movedE)
  show ?thesis
    unfolding handler_effect_def inline_fields_len_def
    using stream_moved_data[OF m0] stream_moved_items[OF m0] p c by simp
qed

lemma nbu_read_groups_section_effect:
  assumes "nbu_read_groups_section ctx section_pos = Inr ctx'"
  shows "handler_effect True ctx ctx'"
proof -
  from assms obtain n c1 nfolders c2 where
    r1: "nbu_read_uint32 ctx = Inr (n, c1)" and
    r2: "nbu_read_uint32 c1 = Inr (nfolders, c2)" and
    l: "nbu_read_groups_loop (unat nfolders) c2 = Inr ctx'"
    unfolding nbu_read_groups_section_def by (auto simp: ebind_eq_Inr_iff)
  note c = nbu_read_two_counts[OF r1 r2]
  from nbu_read_groups_loop_Inr[OF l] have m: "stream_moved c2 ctx'"
    and p: "fp_pos ctx' = fp_pos c2 + 12 * unat nfolders" by auto
  have m0: "stream_moved ctx ctx'"
    using m unfolding c(1) by (auto elim!: stream_movedE)
  show ?thesis
    unfolding handler_effect_def inline_fields_len_def
    using stream_moved_data[OF m0] stream_moved_items[OF m0] p c by simp
qed

lemma nbu_read_bookmarks_section_effect:
  assumes "nbu_read_bookmarks_section ctx section_pos = Inr ctx'"
  shows "handler_effect True ctx ctx'"
proof -
  from assms obtain n c1 nfolders c2 list c3 where
    r1: "nbu_read_uint32 ctx = Inr (n, c1)" and
    r2: "nbu_read_uint32 c1 = Inr (nfolders, c2)" and
    l: "nbu_read_vcard_folders_loop (unat nfolders) c2 [] = Inr (list, c3)" and
    c': "ctx' = c3\<lparr>bookmarks := Some list\<rparr>"
    unfolding nbu_read_bookmarks_section_def nbu_read_vcard_folder_section_def
    by (auto simp: ebind_eq_Inr_iff)
  note c = nbu_read_two_counts[OF r1 r2]
  from nbu_read_vcard_folders_loop_Inr[OF l] have m: "stream_moved c2 c3"
    and p: "fp_pos c3 = fp_pos c2 + 12 * unat nfolders"
    and i: "\<forall>f\<in>set list. \<forall>i\<in>set (folder_items f). item_in_file c2 i" by auto
  have m2: "stream_moved ctx c2" unfolding c(1) by simp
  have m0: "stream_moved ctx c3" using m2 m by (rule stream_moved_trans)
  have inf: "\<forall>f\<in>set list. \<forall>i\<in>set (folder_items f). item_in_file ctx i"
    using i item_in_file_moved[OF m2] by simp
  have "set (nbu_ctx_items ctx') \<subseteq> (\<Union>f\<in>set list. set (folder_items f)) \<union> set (nbu_ctx_items ctx)"
    unfolding c' using items_bookmarks_update[where c = c3 and fl = list] stream_moved_items[OF m0]
    by simp
  then have "\<forall>i\<in>set (nbu_ctx_items ctx'). i \<in> set (nbu_ctx_items ctx) \<or> item_in_file ctx i"
    using inf by blast
  then show ?thesis
    unfolding handler_effect_def inline_fields_len_def
    using stream_moved_data[OF m0] p c c' by simp
qed

lemma nbu_read_messages_section_effect:
  assumes "nbu_read_messages_section ctx section_pos = Inr ctx'"
  shows "handler_effect True ctx ctx'"
proof -
  let ?c0 = "ctx\<lparr>messages := Some []\<rparr>"
  from assms obtain n c1 nfolders c2 list c3 where
    r1: "nbu_read_uint32 ?c0 = Inr (n, c1)" and
    r2: "nbu_read_uint32 c1 = Inr (nfolders, c2)" and
    l: "nbu_read_message_folders_loop (unat nfolders) c2 [] = Inr (list, c3)" and
    c': "ctx' = c3\<lparr>messages := Some list\<rparr>"
    unfolding nbu_read_messages_section_def by (auto simp: ebind_eq_Inr_iff)
  note c = nbu_read_two_counts[OF r1 r2]
  have nf: "nfolders = le_at ctx (fp_pos ctx + 4) 4"
    using c(2) by (simp add: le_at_def)
  from nbu_read_message_folders_loop_Inr[OF l] have m: "stream_moved c2 c3"
    and p: "fp_pos c3 = fp_pos c2 + 12 * unat nfolders"
    and i: "\<forall>f\<in>set list. \<forall>i\<in>set (folder_items f). item_in_file c2 i" by auto
  have m2: "stream_moved ?c0 c2" unfolding c(1) by simp
  have m0: "stream_moved ?c0 c3" using m2 m by (rule stream_moved_trans)
  then obtain q where c3: "c3 = ?c0\<lparr>fp_pos := q\<rparr>" by (rule stream_movedE)
  have c'': "ctx' = ctx\<lparr>messages := Some list, fp_pos := fp_pos c3\<rparr>"
    unfolding c' c3 by simp
  have inf: "\<forall>f\<in>set list. \<forall>i\<in>set (folder_items f). item_in_file ctx i"
    using i item_in_file_moved[OF m2] by (simp add: item_in_file_def)
  have "set (nbu_ctx_items ctx') \<subseteq> (\<Union>f\<in>set list. set (folder_items f)) \<union> set (nbu_ctx_items ctx)"
    unfolding c'' using items_messages_update[where c = ctx and fl = list]
    by (simp add: nbu_ctx_items_def)
  then have "\<forall>i\<in>set (nbu_ctx_items ctx'). i \<in> set (nbu_ctx_items ctx) \<or> item_in_file ctx i"
    using inf by blast
  then show ?thesis
    unfolding handler_effect_def inline_fields_len_def
    using p c(1) nf c'' by simp
qed

lemma nbu_read_mms_section_effect:
  assumes "nbu_read_mms_section ctx section_pos = Inr ctx'"
  shows "handler_effect True ctx ctx'"
proof -
  let ?c0 = "ctx\<lparr>mmses := Some []\<rparr>"
  from assms obtain n c1 nfolders c2 list c3 where
    r1: "nbu_read_uint32 ?c0 = Inr (n, c1)" and
    r2: "nbu_read_uint32 c1 = Inr (nfolders, c2)" and
    l: "nbu_read_mms_folders_loop (unat nfolders) c2 [] = Inr (list, c3)" and
    c': "ctx' = c3\<lparr>mmses := Some list\<rparr>"
    unfolding nbu_read_mms_section_def by (auto simp: ebind_eq_Inr_iff)
  note c = nbu_read_two_counts[OF r1 r2]
  have nf: "nfolders = le_at ctx (fp_pos ctx + 4) 4"
    using c(2) by (simp add: le_at_def)
  from nbu_read_mms_folders_loop_Inr[OF l] have m: "stream_moved c2 c3"
    and p: "fp_pos c3 = fp_pos c2 + 12 * unat nfolders"
    and i: "\<forall>f\<in>set list. \<forall>i\<in>set (folder_items f). item_in_file c2 i" by auto
  have m2: "stream_moved ?c0 c2" unfolding c(1) by simp
  have m0: "stream_moved ?c0 c3" using m2 m by (rule stream_moved_trans)
  then obtain q where c3: "c3 = ?c0\<lparr>fp_pos := q\<rparr>" by (rule stream_movedE)
  have c'': "ctx' = ctx\<lparr>mmses := Some list, fp_pos := fp_pos c3\<rparr>"
    unfolding c' c3 by simp
  have inf: "\<forall>f\<in>set list. \<forall>i\<in>set (folder_items f). item_in_file ctx i"
    using i item_in_file_moved[OF m2] by (simp add: item_in_file_def)
  have "set (nbu_ctx_items ctx') \<subseteq> (\<Union>f\<in>set list. set (folder_items f)) \<union> set (nbu_ctx_items ctx)"
    unfolding c'' using items_mmses_update[where c = ctx and fl = list]
    by (simp add: nbu_ctx_items_def)
  then have "\<forall>i\<in>set (nbu_ctx_items ctx'). i \<in> set (nbu_ctx_items ctx) \<or> item_in_file ctx i"
    using inf by blast
  then show ?thesis
    unfolding handler_effect_def inline_fields_len_def
    using p c(1) nf c'' by simp
qed

text \<open>The dispatcher runs one of the handlers of the table, or fails.\<close>

lemma nbu_read_section_scan_effect:
  assumes "\<forall>(g, rd)\<in>set sections. \<forall>c p c'. rd c p = Inr c' \<longrightarrow>
             handler_effect (has_folder_table g) c c'"
    and "nbu_read_section_scan sections ctx guid pos = Inr ctx'"
  shows "handler_effect (has_folder_table guid) ctx ctx'"
  using assms
proof (induction sections)
  case Nil
  then show ?case by simp
next
  case (Cons a sections)
  then show ?case by (cases a) (auto split: if_splits)
qed

lemma nbu_read_section_effect:
  assumes "nbu_read_section ctx guid pos = Inr ctx'"
  shows "handler_effect (has_folder_table guid) ctx ctx'"
proof (rule nbu_read_section_scan_effect)
  show "nbu_read_section_scan nbu_sections ctx guid pos = Inr ctx'"
    using assms by (simp add: nbu_read_section_def)
  show "\<forall>(g, rd)\<in>set nbu_sections. \<forall>c p c'. rd c p = Inr c' \<longrightarrow>
          handler_effect (has_folder_table g) c c'"
    unfolding nbu_sections_def
    using nbu_read_calendar_section_effect nbu_read_groups_section_effect
      nbu_read_advanced_settings_section_effect nbu_read_mms_section_effect
      nbu_read_memos_section_effect nbu_read_messages_section_effect
      nbu_read_bookmarks_section_effect nbu_read_contacts_section_effect
    by (simp add: has_folder_table_def)
qed

section \<open>Items of a parsed backup\<close>

lemma nbu_read_sections_loop_Inr:
  "nbu_read_sections_loop n ctx = Inr ctx' \<Longrightarrow>
   fp_data ctx' = fp_data ctx \<and>
   (\<forall>i\<in>set (nbu_ctx_items ctx'). i \<in> set (nbu_ctx_items ctx) \<or> item_in_file ctx i)"
proof (induction n arbitrary: ctx)
  case 0
  then show ?case by simp
next
  case (Suc n)
  from Suc.prems obtain guid c1 pos c2 c3 c4 where
    r1: "nbu_read ctx NBU_GUID_LEN = Inr (guid, c1)" and
    r2: "nbu_read_uint64 c1 = Inr (pos, c2)" and
    s: "nbu_seek c2 8 SEEK_CUR = Inr c3" and
    h: "nbu_read_section c3 guid pos = Inr c4" and
    l: "nbu_read_sections_loop n c4 = Inr ctx'"
    by (auto simp: ebind_eq_Inr_iff)
  have m1: "stream_moved ctx c1" using nbu_read_Inr(1)[OF r1] by simp
  have m2: "stream_moved c1 c2" using nbu_read_uint64_InrD[OF r2] by auto
  have m3: "stream_moved c2 c3" using s by (rule nbu_seek_moved)
  have m: "stream_moved ctx c3" using m1 m2 m3 by (blast intro: stream_moved_trans)
  note e = nbu_read_section_effect[OF h, unfolded handler_effect_def]
  note ih = Suc.IH[OF l]
  have d: "fp_data ctx' = fp_data ctx"
    using ih e stream_moved_data[OF m] by simp
  have inf: "item_in_file c4 = item_in_file ctx" "item_in_file c3 = item_in_file ctx"
    using e stream_moved_data[OF m] by (auto simp: item_in_file_def fun_eq_iff)
  from ih have a: "\<forall>i\<in>set (nbu_ctx_items ctx'). i \<in> set (nbu_ctx_items c4) \<or> item_in_file ctx i"
    unfolding inf by simp
  from e have b: "\<forall>i\<in>set (nbu_ctx_items c4). i \<in> set (nbu_ctx_items c3) \<or> item_in_file ctx i"
    unfolding inf by simp
  have "\<forall>i\<in>set (nbu_ctx_items ctx'). i \<in> set (nbu_ctx_items ctx) \<or> item_in_file ctx i"
    using a b unfolding stream_moved_items[OF m] by auto
  with d show ?case by simp
qed

lemma nbu_ctx_items_calloc [simp]: "nbu_ctx_items (nbu_ctx_calloc file) = []"
  by (simp add: nbu_ctx_items_def nbu_ctx_calloc_def items_of_def folder_items_of_def)

lemma fp_data_calloc [simp]: "fp_data (nbu_ctx_calloc file) = file"
  by (simp add: nbu_ctx_calloc_def)

text \<open>The header of the file is read into fields that hold no items.\<close>

lemma nbu_open_Inr:
  assumes "nbu_open file = Inr ctx"
  shows "fp_data ctx = file \<and> (\<forall>i\<in>set (nbu_ctx_items ctx). item_in_file ctx i)"
proof -
  let ?c0 = "nbu_ctx_calloc file"
  from assms obtain ctx1 pos ctx2 ctx3 t ctx4 imei ctx5 model ctx6 name ctx7
      firmware ctx8 language ctx9 ctx10 where
    s1: "nbu_seek ?c0 20 SEEK_SET = Inr ctx1" and
    r1: "nbu_read_uint64 ctx1 = Inr (pos, ctx2)" and
    s2: "nbu_seek ctx2 (sint (pos + 20)) SEEK_SET = Inr ctx3" and
    ft: "nbu_read_file_time ctx3 = Inr (t, ctx4)" and
    u1: "nbu_read_utf16 (ctx4\<lparr>backup_time := t\<rparr>) = Inr (imei, ctx5)" and
    u2: "nbu_read_utf16 (ctx5\<lparr>phone_imei := Some imei\<rparr>) = Inr (model, ctx6)" and
    u3: "nbu_read_utf16 (ctx6\<lparr>phone_model := Some model\<rparr>) = Inr (name, ctx7)" and
    u4: "nbu_read_utf16 (ctx7\<lparr>phone_name := Some name\<rparr>) = Inr (firmware, ctx8)" and
    u5: "nbu_read_utf16 (ctx8\<lparr>phone_firmware := Some firmware\<rparr>) = Inr (language, ctx9)" and
    s3: "nbu_seek (ctx9\<lparr>phone_language := Some language\<rparr>) 20 SEEK_CUR = Inr ctx10" and
    rs: "nbu_read_sections ctx10 = Inr ctx"
    unfolding nbu_open_def by (auto simp: ebind_eq_Inr_iff)
  have ft': "stream_moved ctx3 ctx4"
    using ft unfolding nbu_read_file_time_def
    by (auto simp: ebind_eq_Inr_iff dest!: nbu_read_uint32_InrD)
  have m3: "stream_moved ?c0 ctx3"
    using nbu_seek_moved[OF s1] nbu_read_uint64_InrD[OF r1] nbu_seek_moved[OF s2]
    by (auto elim!: stream_movedE)
  have m4: "stream_moved ?c0 ctx4" using m3 ft' by (rule stream_moved_trans)
  have k4: "fp_data ctx4 = file \<and> nbu_ctx_items ctx4 = []"
    using stream_moved_data[OF m4] stream_moved_items[OF m4] by simp
  have k5: "fp_data ctx5 = file \<and> nbu_ctx_items ctx5 = []"
    using nbu_read_utf16_Inr[OF u1] k4
    by (auto elim!: stream_movedE simp: nbu_ctx_items_def)
  have k6: "fp_data ctx6 = file \<and> nbu_ctx_items ctx6 = []"
    using nbu_read_utf16_Inr[OF u2] k5
    by (auto elim!: stream_movedE simp: nbu_ctx_items_def)
  have k7: "fp_data ctx7 = file \<and> nbu_ctx_items ctx7 = []"
    using nbu_read_utf16_Inr[OF u3] k6
    by (auto elim!: stream_movedE simp: nbu_ctx_items_def)
  have k8: "fp_data ctx8 = file \<and> nbu_ctx_items ctx8 = []"
    using nbu_read_utf16_Inr[OF u4] k7
    by (auto elim!: stream_movedE simp: nbu_ctx_items_def)
  have k9: "fp_data ctx9 = file \<and> nbu_ctx_items ctx9 = []"
    using nbu_read_utf16_Inr[OF u5] k8
    by (auto elim!: stream_movedE simp: nbu_ctx_items_def)
  have k10: "fp_data ctx10 = file \<and> nbu_ctx_items ctx10 = []"
    using nbu_seek_moved[OF s3] k9
    by (auto elim!: stream_movedE simp: nbu_ctx_items_def)
  from rs obtain n c11 where
    r2: "nbu_read_uint32 ctx10 = Inr (n, c11)" and
    l: "nbu_read_sections_loop (unat n) c11 = Inr ctx"
    unfolding nbu_read_sections_def by (auto simp: ebind_eq_Inr_iff)
  have k11: "fp_data c11 = file \<and> nbu_ctx_items c11 = []"
    using nbu_read_uint32_InrD[OF r2] k10 by (auto simp: nbu_ctx_items_def)
  from nbu_read_sections_loop_Inr[OF l] k11 show ?thesis
    by (auto simp: item_in_file_def)
qed

text \<open>
  Claim C2, as the code has it. After a parse that returns 0, every item of the backup,
  in the three item lists and in the folders of the three folder lists, has a position
  that is not negative and not beyond the end of the file. Nothing bounds position plus
  length: the handlers record the length they read and skip it with \<open>fseek\<close>, which
  may go past the end of the file.
\<close>

theorem nbu_open_items_start_in_file:
  assumes "nbu_open file = Inr ctx"
  shows "\<forall>item\<in>set (nbu_ctx_items ctx).
           0 \<le> item_pos item \<and> item_pos item \<le> int (length file)"
  using nbu_open_Inr[OF assms] by (auto simp: item_in_file_def)

lemma nbu_open_calendar_file:
  "nbu_open calendar_file =
     Inr ((nbu_ctx_calloc calendar_file)\<lparr>fp_pos := 110, backup_time := 0x000001D700001234,
       phone_imei := Some [0], phone_model := Some [0], phone_name := Some [0],
       phone_firmware := Some [0], phone_language := Some [0],
       calendar := Some [\<lparr>item_pos = 126, item_len = 1000\<rparr>]\<rparr>)"
  by code_simp

theorem nbu_open_items_start_in_file_witness:
  "nbu_open calendar_file =
     Inr ((nbu_ctx_calloc calendar_file)\<lparr>fp_pos := 110, backup_time := 0x000001D700001234,
       phone_imei := Some [0], phone_model := Some [0], phone_name := Some [0],
       phone_firmware := Some [0], phone_language := Some [0],
       calendar := Some [\<lparr>item_pos = 126, item_len = 1000\<rparr>]\<rparr>) \<and>
   (0::int) \<le> 126 \<and> 126 \<le> int (length calendar_file)"
  using nbu_open_items_start_in_file[OF nbu_open_calendar_file] nbu_open_calendar_file
  by (simp add: nbu_ctx_items_def items_of_def folder_items_of_def nbu_ctx_calloc_def)

text \<open>
  Claim C2 as stated fails: the parse of \<open>calendar_file\<close> (126 bytes) returns 0 with
  an item at position 126 of length 1000.
\<close>

theorem nbu_open_item_past_end_counterexample:
  "nbu_open calendar_file =
     Inr ((nbu_ctx_calloc calendar_file)\<lparr>fp_pos := 110, backup_time := 0x000001D700001234,
       phone_imei := Some [0], phone_model := Some [0], phone_name := Some [0],
       phone_firmware := Some [0], phone_language := Some [0],
       calendar := Some [\<lparr>item_pos = 126, item_len = 1000\<rparr>]\<rparr>) \<and>
   length calendar_file = 126 \<and>
   \<not> item_pos \<lparr>item_pos = 126, item_len = 1000\<rparr> + uint (item_len \<lparr>item_pos = 126, item_len = 1000\<rparr>)
       \<le> int (length calendar_file)"
  using nbu_open_calendar_file by (simp add: calendar_file_def)

section \<open>The section dispatcher\<close>

lemma nbu_read_sections_loop_step:
  assumes fits: "moderate_size ctx" and avail: "fp_pos ctx + 24 \<le> length (fp_data ctx)"
  shows "nbu_read_sections_loop (Suc n) ctx =
     ebind (nbu_read_section (ctx\<lparr>fp_pos := fp_pos ctx + 32\<rparr>)
              (take 16 (drop (fp_pos ctx) (fp_data ctx))) (le_at ctx (fp_pos ctx + 16) 8))
       (nbu_read_sections_loop n)"
proof -
  have lm: "int (length (fp_data ctx)) + 4294967296 \<le> LONG_MAX"
    using fits by (simp add: moderate_size_def)
  have r1: "nbu_read ctx NBU_GUID_LEN =
      Inr (take 16 (drop (fp_pos ctx) (fp_data ctx)), ctx\<lparr>fp_pos := fp_pos ctx + 16\<rparr>)"
    using avail by (simp add: nbu_read_def NBU_GUID_LEN_def)
  have r2: "nbu_read_uint64 (ctx\<lparr>fp_pos := fp_pos ctx + 16\<rparr>) =
      Inr (le_at ctx (fp_pos ctx + 16) 8, ctx\<lparr>fp_pos := fp_pos ctx + 24\<rparr>)"
    using avail by (simp add: nbu_read_uint64_eq)
  have "nbu_seek (ctx\<lparr>fp_pos := fp_pos ctx + 24\<rparr>) 8 SEEK_CUR =
      Inr (ctx\<lparr>fp_pos := fp_pos ctx + 24\<rparr>
             \<lparr>fp_pos := fp_pos (ctx\<lparr>fp_pos := fp_pos ctx + 24\<rparr>) + nat 8\<rparr>)"
    using lm avail by (intro nbu_seek_cur_eq) simp_all
  then have s: "nbu_seek (ctx\<lparr>fp_pos := fp_pos ctx + 24\<rparr>) 8 SEEK_CUR =
      Inr (ctx\<lparr>fp_pos := fp_pos ctx + 32\<rparr>)"
    by simp
  show ?thesis
    by (simp add: r1 r2 s)
qed

text \<open>
  Claim C1, as the code has it. At a readable table entry (file of moderate size),
  \<open>nbu_read_sections\<close> reads the identifier and the declared position, skips the
  length field and calls the handler with the stream just after the entry, 32 bytes
  after its start; the declared position is only an argument of the handler. The
  dispatcher does not seek to it and saves no cursor: the next entry is read where the
  handler leaves the stream. A handler that returns 0 leaves the file content as it was
  and the stream just after the inline fields of its section, wherever it went in
  between: 8 bytes after the entry for the calendar, the memos and the contacts; for each
  of the other five sections, 8 bytes plus 12 for each entry of its folder table.
\<close>

theorem nbu_read_sections_dispatch:
  "(moderate_size ctx \<and> fp_pos ctx + 24 \<le> length (fp_data ctx) \<longrightarrow>
      nbu_read_sections_loop (Suc n) ctx =
        ebind (nbu_read_section (ctx\<lparr>fp_pos := fp_pos ctx + 32\<rparr>)
                 (take 16 (drop (fp_pos ctx) (fp_data ctx))) (le_at ctx (fp_pos ctx + 16) 8))
          (nbu_read_sections_loop n)) \<and>
   (nbu_read_section ctx guid pos = Inr ctx' \<longrightarrow>
      fp_data ctx' = fp_data ctx \<and>
      fp_pos ctx' = fp_pos ctx + inline_fields_len ctx (has_folder_table guid))"
  using nbu_read_sections_loop_step[of ctx n] nbu_read_section_effect[of ctx guid pos ctx']
  unfolding handler_effect_def by blast

lemma two_sections_first_handler:
  "nbu_read_section ((nbu_ctx_calloc two_sections_table)\<lparr>fp_pos := 36\<rparr>)
      [0x2d, 0xf5, 0x68, 0x6b, 0x1f, 0x4b, 0x22, 0x4a, 0x92, 0x83, 0x1b, 0x06, 0xc3, 0xc3, 0x9a, 0x35] 200 =
     Inr ((nbu_ctx_calloc two_sections_table)\<lparr>fp_pos := 44\<rparr>)"
  by code_simp

lemma bookmarks_section_handler:
  "nbu_read_section (nbu_ctx_calloc bookmarks_section_file)
      [0x7f, 0x77, 0x90, 0x56, 0x31, 0xf9, 0x57, 0x49, 0x8d, 0x96, 0xee, 0x44, 0x5d, 0xbe, 0xbc, 0x5a] 0 =
     Inr ((nbu_ctx_calloc bookmarks_section_file)
            \<lparr>fp_pos := 20, bookmarks := Some [\<lparr>folder_name = [0x42, 0], folder_items = []\<rparr>]\<rparr>)"
  by code_simp

lemma memos_section_handler:
  "nbu_read_section (nbu_ctx_calloc two_memos_file)
      [0x5c, 0x62, 0x97, 0x3b, 0xdc, 0xa7, 0x54, 0x41, 0xa1, 0xc3, 0x05, 0x9d, 0xe3, 0x24, 0x68, 0x08] 0 =
     Inr ((nbu_ctx_calloc two_memos_file)
            \<lparr>fp_pos := 8, memos := Some [\<lparr>item_pos = 54, item_len = 4\<rparr>, \<lparr>item_pos = 64, item_len = 2\<rparr>]\<rparr>)"
  by code_simp

theorem nbu_read_sections_dispatch_witness:
  "moderate_size ((nbu_ctx_calloc two_sections_table)\<lparr>fp_pos := 4\<rparr>) \<and>
   fp_pos ((nbu_ctx_calloc two_sections_table)\<lparr>fp_pos := 4\<rparr>) + 24 \<le>
     length (fp_data ((nbu_ctx_calloc two_sections_table)\<lparr>fp_pos := 4\<rparr>)) \<and>
   nbu_read_sections_loop (Suc 1) ((nbu_ctx_calloc two_sections_table)\<lparr>fp_pos := 4\<rparr>) =
     ebind (nbu_read_section ((nbu_ctx_calloc two_sections_table)\<lparr>fp_pos := 36\<rparr>)
        [0x2d, 0xf5, 0x68, 0x6b, 0x1f, 0x4b, 0x22, 0x4a, 0x92, 0x83, 0x1b, 0x06, 0xc3, 0xc3, 0x9a, 0x35] 200)
       (nbu_read_sections_loop 1) \<and>
   nbu_read_section (nbu_ctx_calloc bookmarks_section_file)
      [0x7f, 0x77, 0x90, 0x56, 0x31, 0xf9, 0x57, 0x49, 0x8d, 0x96, 0xee, 0x44, 0x5d, 0xbe, 0xbc, 0x5a] 0 =
     Inr ((nbu_ctx_calloc bookmarks_section_file)
            \<lparr>fp_pos := 20, bookmarks := Some [\<lparr>folder_name = [0x42, 0], folder_items = []\<rparr>]\<rparr>) \<and>
   inline_fields_len (nbu_ctx_calloc bookmarks_section_file)
     (has_folder_table
        [0x7f, 0x77, 0x90, 0x56, 0x31, 0xf9, 0x57, 0x49, 0x8d, 0x96, 0xee, 0x44, 0x5d, 0xbe, 0xbc, 0x5a]) = 20 \<and>
   nbu_read_section (nbu_ctx_calloc two_memos_file)
      [0x5c, 0x62, 0x97, 0x3b, 0xdc, 0xa7, 0x54, 0x41, 0xa1, 0xc3, 0x05, 0x9d, 0xe3, 0x24, 0x68, 0x08] 0 =
     Inr ((nbu_ctx_calloc two_memos_file)
            \<lparr>fp_pos := 8, memos := Some [\<lparr>item_pos = 54, item_len = 4\<rparr>, \<lparr>item_pos = 64, item_len = 2\<rparr>]\<rparr>) \<and>
   inline_fields_len (nbu_ctx_calloc two_memos_file)
     (has_folder_table
        [0x5c, 0x62, 0x97, 0x3b, 0xdc, 0xa7, 0x54, 0x41, 0xa1, 0xc3, 0x05, 0x9d, 0xe3, 0x24, 0x68, 0x08]) = 8"
proof -
  let ?c = "(nbu_ctx_calloc two_sections_table)\<lparr>fp_pos := 4\<rparr>"
  let ?b = "nbu_ctx_calloc bookmarks_section_file"
  let ?m = "nbu_ctx_calloc two_memos_file"
  have h: "moderate_size ?c \<and> fp_pos ?c + 24 \<le> length (fp_data ?c)"
    by (simp add: moderate_size_def two_sections_table_def LONG_MAX_def)
  have g: "take 16 (drop (fp_pos ?c) (fp_data ?c)) =
      [0x2d, 0xf5, 0x68, 0x6b, 0x1f, 0x4b, 0x22, 0x4a, 0x92, 0x83, 0x1b, 0x06, 0xc3, 0xc3, 0x9a, 0x35]"
    by code_simp
  have p: "(le_at ?c (fp_pos ?c + 16) 8 :: uint64_t) = 200"
    by code_simp
  note t1 = nbu_read_sections_dispatch[of ?c 1, THEN conjunct1, THEN mp, OF h, unfolded g p]
  note t2 = nbu_read_sections_dispatch[where ctx = ?b, THEN conjunct2, THEN mp,
      OF bookmarks_section_handler, THEN conjunct2]
  note t3 = nbu_read_sections_dispatch[where ctx = ?m, THEN conjunct2, THEN mp,
      OF memos_section_handler, THEN conjunct2]
  have b: "inline_fields_len ?b (has_folder_table
        [0x7f, 0x77, 0x90, 0x56, 0x31, 0xf9, 0x57, 0x49, 0x8d, 0x96, 0xee, 0x44, 0x5d, 0xbe, 0xbc, 0x5a]) = 20"
    using t2 by (simp add: nbu_ctx_calloc_def)
  have m: "inline_fields_len ?m (has_folder_table
        [0x5c, 0x62, 0x97, 0x3b, 0xdc, 0xa7, 0x54, 0x41, 0xa1, 0xc3, 0x05, 0x9d, 0xe3, 0x24, 0x68, 0x08]) = 8"
    using t3 by (simp add: nbu_ctx_calloc_def)
  from h t1 bookmarks_section_handler b memos_section_handler m show ?thesis
    by (intro conjI) simp_all
qed

text \<open>
  Claim C1 as stated fails on the table \<open>two_sections_table\<close> (84 bytes). Its parse
  returns 0 although the first entry declares position 200: the handler of the first
  entry runs at offset 36, just after the entry, and leaves the stream at offset 44, where
  the second entry is then read. Run at the declared position the handler would fail,
  and an entry read at the offset 36 following the first entry would not be recognised.
\<close>

theorem nbu_read_sections_no_seek_counterexample:
  "nbu_read_sections (nbu_ctx_calloc two_sections_table) =
     Inr ((nbu_ctx_calloc two_sections_table)\<lparr>memos := Some [], fp_pos := 84\<rparr>) \<and>
   length two_sections_table = 84 \<and>
   nbu_read_section ((nbu_ctx_calloc two_sections_table)\<lparr>fp_pos := 36\<rparr>)
      [0x2d, 0xf5, 0x68, 0x6b, 0x1f, 0x4b, 0x22, 0x4a, 0x92, 0x83, 0x1b, 0x06, 0xc3, 0xc3, 0x9a, 0x35] 200 =
     Inr ((nbu_ctx_calloc two_sections_table)\<lparr>fp_pos := 44\<rparr>) \<and>
   nbu_read_section ((nbu_ctx_calloc two_sections_table)\<lparr>fp_pos := 200\<rparr>)
      [0x2d, 0xf5, 0x68, 0x6b, 0x1f, 0x4b, 0x22, 0x4a, 0x92, 0x83, 0x1b, 0x06, 0xc3, 0xc3, 0x9a, 0x35] 200 =
     Inl Unexpected_end_of_file \<and>
   nbu_read_sections_loop 1 ((nbu_ctx_calloc two_sections_table)\<lparr>fp_pos := 36\<rparr>) =
     Inl Unsupported_backup_section"
proof -
  have a: "nbu_read_sections (nbu_ctx_calloc two_sections_table) =
     Inr ((nbu_ctx_calloc two_sections_table)\<lparr>memos := Some [], fp_pos := 84\<rparr>)"
    by code_simp
  have b: "length two_sections_table = 84"
    by (simp add: two_sections_table_def)
  have c: "nbu_read_section ((nbu_ctx_calloc two_sections_table)\<lparr>fp_pos := 200\<rparr>)
      [0x2d, 0xf5, 0x68, 0x6b, 0x1f, 0x4b, 0x22, 0x4a, 0x92, 0x83, 0x1b, 0x06, 0xc3, 0xc3, 0x9a, 0x35] 200 =
     Inl Unexpected_end_of_file"
    by code_simp
  have d: "nbu_read_sections_loop 1 ((nbu_ctx_calloc two_sections_table)\<lparr>fp_pos := 36\<rparr>) =
     Inl Unsupported_backup_section"
    by code_simp
  from a b two_sections_first_handler c d show ?thesis by (intro conjI)
qed

section \<open>What the export writes\<close>

lemma ebind_if: "ebind (if c then x else y) f = (if c then ebind x f else ebind y f)"
  by simp

lemma nbu_seek_set_if:
  "nbu_seek ctx off SEEK_SET =
     (if 0 \<le> off \<and> off \<le> LONG_MAX then Inr (ctx\<lparr>fp_pos := nat off\<rparr>) else Inl Fseek_failed)"
  by (simp add: nbu_seek_def Let_def)

text \<open>The export of an item depends on the content of the backup file only.\<close>

lemma nbu_export_item_to_fd_same_data:
  assumes "fp_data a = fp_data b"
  shows "nbu_export_item_to_fd a item fd fs = nbu_export_item_to_fd b item fd fs"
  using assms
  by (simp add: nbu_export_item_to_fd_def nbu_seek_set_if ebind_if nbu_read_def)

lemma units_at_same_data: "fp_data a = fp_data b \<Longrightarrow> units_at a off n = units_at b off n"
  by (simp add: units_at_def le_at_def)

lemma nbu_export_utf16_item_to_fd_same_data:
  assumes "fp_data a = fp_data b"
  shows "nbu_export_utf16_item_to_fd a item fd fs = nbu_export_utf16_item_to_fd b item fd fs"
proof -
  have u: "units_at (a\<lparr>fp_pos := p\<rparr>) off n = units_at (b\<lparr>fp_pos := p\<rparr>) off n" for p off n
    using assms by (simp add: units_at_def le_at_def)
  have "ebind (nbu_seek a (item_pos item) SEEK_SET) (\<lambda>ctx1.
             ebind (nbu_read_utf16_n ctx1 len) (\<lambda>(utf16, ctx2).
               nbu_convert_utf16_to_utf8 utf16)) =
        ebind (nbu_seek b (item_pos item) SEEK_SET) (\<lambda>ctx1.
             ebind (nbu_read_utf16_n ctx1 len) (\<lambda>(utf16, ctx2).
               nbu_convert_utf16_to_utf8 utf16))" for len
    using assms
    by (simp add: nbu_seek_set_if ebind_if nbu_read_utf16_n_def nbu_read_utf16_loop_eq
        units_at_same_data[OF assms])
  then show ?thesis
    by (simp add: nbu_export_utf16_item_to_fd_def Let_def)
qed

lemma nbu_export_items_to_fd_same_data:
  "fp_data a = fp_data b \<Longrightarrow>
   nbu_export_items_to_fd a list fd fs = nbu_export_items_to_fd b list fd fs"
  by (induction list arbitrary: fs)
    (simp_all add: nbu_export_item_to_fd_same_data[of a b] split: prod.splits sum.splits)

lemma nbu_export_utf16_items_to_fd_same_data:
  "fp_data a = fp_data b \<Longrightarrow>
   nbu_export_utf16_items_to_fd a list fd fs = nbu_export_utf16_items_to_fd b list fd fs"
  by (induction list arbitrary: fs)
    (simp_all add: nbu_export_utf16_item_to_fd_same_data[of a b] split: prod.splits sum.splits)

lemma nbu_export_utf16_item_same_data:
  "fp_data a = fp_data b \<Longrightarrow>
   nbu_export_utf16_item a item dfd name fs = nbu_export_utf16_item b item dfd name fs"
  by (simp add: nbu_export_utf16_item_def nbu_export_utf16_item_to_fd_same_data[of a b]
      split: prod.splits sum.splits)

lemma nbu_export_message_folder_same_data:
  "fp_data a = fp_data b \<Longrightarrow>
   nbu_export_message_folder mem a folder dfd dir fs =
   nbu_export_message_folder mem b folder dfd dir fs"
  by (simp add: nbu_export_message_folder_def nbu_export_utf16_items_to_fd_same_data[of a b] Let_def
      split: prod.splits sum.splits option.splits)

lemma nbu_export_memos_loop_same_data:
  "fp_data a = fp_data b \<Longrightarrow>
   nbu_export_memos_loop a list dfd i ret fs = nbu_export_memos_loop b list dfd i ret fs"
proof (induction list arbitrary: i ret fs)
  case Nil
  then show ?case by simp
next
  case (Cons item list)
  show ?case
    by (simp only: nbu_export_memos_loop.simps nbu_export_utf16_item_same_data[OF Cons.prems]
        Cons.IH[OF Cons.prems])
qed

lemma nbu_export_messages_loop_same_data:
  "fp_data a = fp_data b \<Longrightarrow>
   nbu_export_messages_loop mem a list dfd ret fs = nbu_export_messages_loop mem b list dfd ret fs"
proof (induction list arbitrary: ret fs)
  case Nil
  then show ?case by simp
next
  case (Cons folder list)
  show ?case
    by (simp only: nbu_export_messages_loop.simps nbu_export_message_folder_same_data[OF Cons.prems]
        Cons.IH[OF Cons.prems])
qed

text \<open>
  Claim C3, as the code has it. \<open>nbu_export\<close> exports the calendar, the contacts, the
  memos and the messages. The bookmarks and the MMS folders are never exported: whatever
  these two collections hold, the export call returns the same value and leaves the same
  file system as without them.
\<close>

theorem nbu_export_ignores_bookmarks_and_mmses:
  "nbu_export mem (ctx\<lparr>bookmarks := b, mmses := m\<rparr>) path fs = nbu_export mem ctx path fs"
proof -
  let ?c = "ctx\<lparr>bookmarks := b, mmses := m\<rparr>"
  have d: "fp_data ?c = fp_data ctx" by simp
  have cal: "nbu_export_calendar ?c dfd f = nbu_export_calendar ctx dfd f" for dfd f
    by (simp add: nbu_export_calendar_def nbu_export_item_list_def
        nbu_export_items_to_fd_same_data[OF d] split: prod.splits sum.splits)
  have con: "nbu_export_contacts ?c dfd f = nbu_export_contacts ctx dfd f" for dfd f
    by (simp add: nbu_export_contacts_def nbu_export_item_list_def
        nbu_export_items_to_fd_same_data[OF d] split: prod.splits sum.splits)
  have memo: "nbu_export_memos ?c dfd f = nbu_export_memos ctx dfd f" for dfd f
    by (simp add: nbu_export_memos_def nbu_export_memos_loop_same_data[OF d]
        split: prod.splits sum.splits)
  have msg: "nbu_export_messages mem ?c dfd f = nbu_export_messages mem ctx dfd f" for dfd f
    by (simp add: nbu_export_messages_def nbu_export_messages_loop_same_data[OF d]
        split: prod.splits sum.splits)
  show ?thesis
    unfolding nbu_export_def cal con memo msg ..
qed

text \<open>
  Claim C3 as stated fails: for the backup \<open>bookmarks_mms_backup\<close>, whose bookmarks
  and MMS collections are not empty, the export into a new directory \<open>out\<close> returns
  0 and creates that directory and nothing else.
\<close>

theorem nbu_export_bookmarks_mms_counterexample:
  "bookmarks bookmarks_mms_backup \<noteq> None \<and> bookmarks bookmarks_mms_backup \<noteq> Some [] \<and>
   mmses bookmarks_mms_backup \<noteq> None \<and> mmses bookmarks_mms_backup \<noteq> Some [] \<and>
   nbu_export enough_memory bookmarks_mms_backup [bytes_of ''out''] Map.empty =
     Some (0, [[bytes_of ''out''] \<mapsto> Dir])"
proof -
  have e: "nbu_export enough_memory bookmarks_mms_backup [bytes_of ''out''] Map.empty =
     Some (0, [[bytes_of ''out''] \<mapsto> Dir])"
    unfolding nbu_export_def nbu_export_calendar_def nbu_export_contacts_def
      nbu_export_item_list_def nbu_export_memos_def nbu_export_messages_def
    by (simp add: bookmarks_mms_backup_def nbu_ctx_calloc_def mkdir_unless_exists_def
        exists_path_def is_dir_def open_directory_def Let_def)
  then show ?thesis
    by (simp add: bookmarks_mms_backup_def)
qed

section \<open>Failure isolation of the export\<close>

lemma outcome_of_Nil [simp]: "outcome_of [] = 0"
  by (simp add: outcome_of_def)













end
